theory Spec2Isabelle
  imports Main "HOL-Library.Sublist"
begin

section \<open>JavaScript values\<close>

text \<open>
  The values the program handles: the result of \<open>JSON.parse\<close>, response bodies, regular
  expression captures and the session's identifiers. A number is represented by its
  canonical rendering (what \<open>String(n)\<close> returns), which decides both its truthiness and
  its conversion to text; an object is the list of its own properties in enumeration order.
\<close>

datatype jsval =
    JUndefined
  | JNull
  | JBool bool
  | JNum string
  | JStr string
  | JArr "jsval list"
  | JObj "(string \<times> jsval) list"

datatype error =
    TypeError
  | InvalidUrl
  | SyntaxError
  | Transport string
  | Error string

fun truthy :: "jsval \<Rightarrow> bool" where
  "truthy JUndefined = False"
| "truthy JNull = False"
| "truthy (JBool b) = b"
| "truthy (JNum n) = (n \<noteq> ''0'' \<and> n \<noteq> ''NaN'')"
| "truthy (JStr s) = (s \<noteq> [])"
| "truthy (JArr xs) = True"
| "truthy (JObj kvs) = True"

fun join :: "string \<Rightarrow> string list \<Rightarrow> string" where
  "join sep [] = []"
| "join sep [x] = x"
| "join sep (x # y # ys) = x @ sep @ join sep (y # ys)"

text \<open>\<open>String(v)\<close>, which is also how a template literal and \<open>re.exec(v)\<close> turn a value
  into a text. An array joins its elements with commas, rendering null and undefined
  elements as the empty text. A plain object renders as \<open>[object Object]\<close>, unless it has
  a property \<open>toString\<close> of its own: in a value that \<open>JSON.parse\<close> built that is never a
  function, and the conversion throws a TypeError.\<close>

fun first_error :: "(error + 'a) list \<Rightarrow> error + 'a list" where
  "first_error [] = Inr []"
| "first_error (Inl e # rs) = Inl e"
| "first_error (Inr x # rs) = (case first_error rs of Inl e \<Rightarrow> Inl e | Inr xs \<Rightarrow> Inr (x # xs))"

fun to_String :: "jsval \<Rightarrow> error + string" where
  "to_String JUndefined = Inr ''undefined''"
| "to_String JNull = Inr ''null''"
| "to_String (JBool b) = Inr (if b then ''true'' else ''false'')"
| "to_String (JNum n) = Inr n"
| "to_String (JStr s) = Inr s"
| "to_String (JArr xs) =
     (case first_error
             (map (\<lambda>x. if x = JNull \<or> x = JUndefined then Inr [] else to_String x) xs) of
        Inl e \<Rightarrow> Inl e
      | Inr ts \<Rightarrow> Inr (join '','' ts))"
| "to_String (JObj kvs) =
     (if map_of kvs ''toString'' \<noteq> None then Inl TypeError else Inr ''[object Object]'')"

text \<open>Reading one of the properties \<open>data\<close>, \<open>output\<close>, \<open>logs\<close>, \<open>deployment_logs\<close>:
  none of them is a property of an array, a text, a number or a boolean, so only an
  object can have it; reading a property of null or undefined throws.\<close>

fun field :: "jsval \<Rightarrow> string \<Rightarrow> jsval" where
  "field (JObj kvs) k = (case map_of kvs k of None \<Rightarrow> JUndefined | Some v \<Rightarrow> v)"
| "field v k = JUndefined"

fun js_get :: "jsval \<Rightarrow> string \<Rightarrow> error + jsval" where
  "js_get JUndefined k = Inl TypeError"
| "js_get JNull k = Inl TypeError"
| "js_get v k = Inr (field v k)"

text \<open>The values of \<open>Object.entries(v)\<close>, in enumeration order.\<close>

fun entry_values :: "jsval \<Rightarrow> jsval list" where
  "entry_values (JObj kvs) = map snd kvs"
| "entry_values (JArr xs) = xs"
| "entry_values (JStr s) = map (\<lambda>c. JStr [c]) s"
| "entry_values v = []"

section \<open>Regular expressions\<close>

text \<open>
  The regular expressions of the program, with the backtracking semantics of ECMAScript:
  \<open>bt r (c, s)\<close> lists every way \<open>r\<close> can match a prefix of \<open>s\<close>, as the captures and the
  text left over, in the order in which the backtracking matcher tries them. The first
  element is the match the engine reports. \<open>Rep greedy min max r\<close> is the quantifier
  \<open>r{min,max}\<close> (\<open>max = None\<close>: unbounded), lazy when \<open>greedy\<close> is false; as in the
  language definition, an iteration beyond the minimum that consumes nothing is rejected.
\<close>

datatype regex =
    Atom "char \<Rightarrow> bool"
  | Eps
  | Seq regex regex
  | Alt regex regex
  | Rep bool nat "nat option" regex
  | Group nat regex

type_synonym caps = "(nat \<times> string) list"

fun rsize :: "regex \<Rightarrow> nat" where
  "rsize (Atom p) = 1"
| "rsize Eps = 1"
| "rsize (Seq r1 r2) = Suc (rsize r1 + rsize r2)"
| "rsize (Alt r1 r2) = Suc (rsize r1 + rsize r2)"
| "rsize (Rep g m mx r) = Suc (rsize r)"
| "rsize (Group i r) = Suc (rsize r)"

fun rmin :: "regex \<Rightarrow> nat" where
  "rmin (Rep g m mx r) = m"
| "rmin r = 0"

fun dec :: "nat option \<Rightarrow> nat option" where
  "dec None = None"
| "dec (Some n) = Some (n - 1)"

function bt :: "regex \<Rightarrow> caps \<times> string \<Rightarrow> (caps \<times> string) list" where
  "bt (Atom p) (c, s) = (case s of [] \<Rightarrow> [] | x # xs \<Rightarrow> if p x then [(c, xs)] else [])"
| "bt Eps (c, s) = [(c, s)]"
| "bt (Seq r1 r2) (c, s) = concat (map (bt r2) (bt r1 (c, s)))"
| "bt (Alt r1 r2) (c, s) = bt r1 (c, s) @ bt r2 (c, s)"
| "bt (Group i r) (c, s) =
     map (\<lambda>(c', s'). ((i, take (length s - length s') s) # c', s')) (bt r (c, s))"
| "bt (Rep g m mx r) (c, s) =
     (if mx = Some 0 then [(c, s)]
      else if 0 < m then
        concat (map (\<lambda>(c', s'). bt (Rep g (m - 1) (dec mx) r) (c', s')) (bt r (c, s)))
      else
        let again = concat (map (\<lambda>(c', s'). if length s' < length s
                                   then bt (Rep g 0 (dec mx) r) (c', s') else [])
                                (bt r (c, s)))
        in if g then again @ [(c, s)] else (c, s) # again)"
  by pat_completeness auto
termination
  by (relation "(\<lambda>(r, c, s). rsize r) <*mlex*> (\<lambda>(r, c, s). rmin r) <*mlex*>
                measure (\<lambda>(r, c, s). length s)")
     (auto simp: wf_mlex mlex_less mlex_leq)


text \<open>Literal text, with and without the \<open>i\<close> flag (which folds the case of the ASCII
  letters only: no other character canonicalises to one of them).\<close>

definition lit :: "string \<Rightarrow> regex" where
  "lit w = foldr (\<lambda>x r. Seq (Atom (\<lambda>y. y = x)) r) w Eps"

definition upper :: "char \<Rightarrow> char" where
  "upper x = (if x \<in> set ''abcdefghijklmnopqrstuvwxyz'' then char_of (of_char x - (32::nat)) else x)"

definition lit_i :: "string \<Rightarrow> regex" where
  "lit_i w = foldr (\<lambda>x r. Seq (Atom (\<lambda>y. upper y = upper x)) r) w Eps"

fun alts :: "regex list \<Rightarrow> regex" where
  "alts [] = Eps"
| "alts [r] = r"
| "alts (r # rs) = Alt r (alts rs)"

definition lower_alnum :: "char \<Rightarrow> bool" where
  "lower_alnum x = (x \<in> set ''abcdefghijklmnopqrstuvwxyz0123456789'')"

definition white_space :: "char \<Rightarrow> bool" where
  "white_space x = (x \<in> set [CHR 0x09, CHR 0x0A, CHR 0x0B, CHR 0x0C, CHR 0x0D, CHR 0x20, CHR 0xA0])"

text \<open>A match: the text before it, the matched text, the captures, the text after it.\<close>

record rmatch =
  pre_text :: string
  matched :: string
  captures :: caps
  post_text :: string

text \<open>\<open>match[i]\<close>: the text of group \<open>i\<close>, undefined when the group took no part.\<close>

definition grp :: "rmatch \<Rightarrow> nat \<Rightarrow> jsval" where
  "grp m i = (if i = 0 then JStr (matched m)
              else case map_of (captures m) i of None \<Rightarrow> JUndefined | Some w \<Rightarrow> JStr w)"

text \<open>The leftmost match: the first position at which the matcher succeeds.\<close>

fun first_match :: "regex \<Rightarrow> string \<Rightarrow> rmatch option" where
  "first_match r s =
     (case bt r ([], s) of
        (c, s') # _ \<Rightarrow>
          Some \<lparr>pre_text = [], matched = take (length s - length s') s, captures = c, post_text = s'\<rparr>
      | [] \<Rightarrow>
          (case s of
             [] \<Rightarrow> None
           | x # xs \<Rightarrow> map_option (\<lambda>m. m\<lparr>pre_text := x # pre_text m\<rparr>) (first_match r xs)))"


declare bt.simps(6) [simp del]

lemma bt_suffix: "(c', s') \<in> set (bt r (c, s)) \<Longrightarrow> suffix s' s"
proof (induction r "(c, s)" arbitrary: c s c' s' rule: bt.induct)
  case (1 p c s)
  then show ?case by (auto split: list.splits if_splits simp: suffix_Cons)
next
  case (2 c s)
  then show ?case by simp
next
  case (3 r1 r2 c s)
  from 3(3) obtain c1 s1 where a: "(c1, s1) \<in> set (bt r1 (c, s))"
    and b: "(c', s') \<in> set (bt r2 (c1, s1))" by auto
  from 3(2)[OF a b] 3(1)[OF a] show ?case by (rule suffix_order.trans)
next
  case (4 r1 r2 c s)
  then show ?case by auto
next
  case (5 i r c s)
  then show ?case by auto
next
  case (6 g m mx r c s)
  have mem: "(c', s') \<in> set
     (if mx = Some 0 then [(c, s)]
      else if 0 < m then
        concat (map (\<lambda>(c', s'). bt (Rep g (m - 1) (dec mx) r) (c', s')) (bt r (c, s)))
      else
        let again = concat (map (\<lambda>(c', s'). if length s' < length s
                                   then bt (Rep g 0 (dec mx) r) (c', s') else [])
                                (bt r (c, s)))
        in if g then again @ [(c, s)] else (c, s) # again)"
    using 6(5) by (subst (asm) bt.simps(6)) assumption
  show ?case
  proof (cases "mx = Some 0")
    case True
    with mem show ?thesis by simp
  next
    case nz: False
    show ?thesis
    proof (cases "0 < m")
      case True
      with nz mem obtain c1 s1 where a: "(c1, s1) \<in> set (bt r (c, s))"
        and b: "(c', s') \<in> set (bt (Rep g (m - 1) (dec mx) r) (c1, s1))"
        by auto
      from 6(2)[OF nz True a refl b] 6(1)[OF nz True a]
      show ?thesis by (rule suffix_order.trans)
    next
      case False
      with nz mem consider "(c', s') = (c, s)"
        | c1 s1 where "(c1, s1) \<in> set (bt r (c, s))" "length s1 < length s"
            "(c', s') \<in> set (bt (Rep g 0 (dec mx) r) (c1, s1))"
        by (auto simp: Let_def split: if_splits)
      then show ?thesis
      proof cases
        case 1
        then show ?thesis by simp
      next
        case (2 c1 s1)
        from 6(4)[OF nz False 2(1) refl 2(2) 2(3)] 6(3)[OF nz False 2(1)] 
        show ?thesis by (rule suffix_order.trans)
      qed
    qed
  qed
qed



declare first_match.simps [simp del]

lemma first_match_here:
  assumes "bt r ([], s) = (c, s') # rs"
  shows "take (length s - length s') s @ s' = s"
proof -
  from assms have "(c, s') \<in> set (bt r ([], s))" by simp
  then have "suffix s' s" by (rule bt_suffix)
  then obtain p where p: "s = p @ s'" by (auto simp: suffix_def)
  then have "take (length s - length s') s = p" by simp
  with p show ?thesis by simp
qed

lemma first_match_split:
  "first_match r s = Some m \<Longrightarrow> pre_text m @ matched m @ post_text m = s"
proof (induction s arbitrary: m)
  case Nil
  show ?case
  proof (cases "bt r ([], [])")
    case empty: Nil
    with Nil.prems show ?thesis by (simp add: first_match.simps[of r "[]"])
  next
    case hit: (Cons a rs)
    obtain c s' where a: "a = (c, s')" by (cases a)
    from hit a have b: "bt r ([], []) = (c, s') # rs" by simp
    from first_match_here[OF b] have "s' = []" by simp
    with b Nil.prems show ?thesis by (auto simp: first_match.simps[of r "[]"])
  qed
next
  case (Cons x xs)
  show ?case
  proof (cases "bt r ([], x # xs)")
    case empty: Nil
    with Cons.prems obtain m' where m': "first_match r xs = Some m'"
      and m: "m = m'\<lparr>pre_text := x # pre_text m'\<rparr>"
      by (auto simp: first_match.simps[of r "x # xs"])
    from Cons.IH[OF m'] m show ?thesis by simp
  next
    case hit: (Cons a rs)
    obtain c s' where a: "a = (c, s')" by (cases a)
    from hit a have b: "bt r ([], x # xs) = (c, s') # rs" by simp
    from b Cons.prems
    have m: "m = \<lparr>pre_text = [], matched = take (length (x # xs) - length s') (x # xs),
                    captures = c, post_text = s'\<rparr>"
      by (simp add: first_match.simps[of r "x # xs"])
    from first_match_here[OF b] show ?thesis unfolding m by simp
  qed
qed

lemma first_match_shorter:
  assumes "first_match r s = Some m" and "matched m \<noteq> []"
  shows "length (post_text m) < length s"
proof -
  have "length (pre_text m @ matched m @ post_text m) = length s"
    using first_match_split[OF assms(1)] by simp
  with assms(2) show ?thesis by (cases "matched m") auto
qed

section \<open>Text operations of the runtime\<close>

text \<open>\<open>s.replace(/r/g, rep)\<close>, for a replacement text without \<open>$\<close>: every match, found
  from left to right, is replaced; after an empty match the search moves on by one
  character.\<close>

function replace_all :: "regex \<Rightarrow> string \<Rightarrow> string \<Rightarrow> string" where
  "replace_all r rep s =
     (case first_match r s of
        None \<Rightarrow> s
      | Some m \<Rightarrow>
          pre_text m @ rep @
          (if matched m \<noteq> [] then replace_all r rep (post_text m)
           else case post_text m of [] \<Rightarrow> [] | x # xs \<Rightarrow> x # replace_all r rep xs))"
  by pat_completeness auto
termination
proof (relation "measure (\<lambda>(r, rep, s). length s)", goal_cases)
  case 1
  show ?case by simp
next
  case (2 r rep s m)
  then show ?case by (simp add: first_match_shorter)
next
  case (3 r rep s m x xs)
  have "length (pre_text m @ matched m @ post_text m) = length s"
    using first_match_split[OF 3(1)] by simp
  with 3(2,3) show ?case by simp
qed

text \<open>\<open>s.match(/r/g)\<close>: the matched texts, from left to right (the empty list stands
  for the \<open>null\<close> the runtime returns when there is none).\<close>

function match_all :: "regex \<Rightarrow> string \<Rightarrow> string list" where
  "match_all r s =
     (case first_match r s of
        None \<Rightarrow> []
      | Some m \<Rightarrow>
          matched m #
          (if matched m \<noteq> [] then match_all r (post_text m)
           else case post_text m of [] \<Rightarrow> [] | x # xs \<Rightarrow> match_all r xs))"
  by pat_completeness auto
termination
proof (relation "measure (\<lambda>(r, s). length s)", goal_cases)
  case 1
  show ?case by simp
next
  case (2 r s m)
  then show ?case by (simp add: first_match_shorter)
next
  case (3 r s m x xs)
  have "length (pre_text m @ matched m @ post_text m) = length s"
    using first_match_split[OF 3(1)] by simp
  with 3(2,3) show ?case by simp
qed

text \<open>The loop \<open>while ((match = re.exec(text)) !== null) { if (!ids.includes(match[1]))
  ids.push(match[1]) }\<close> over a global regular expression: each search starts where the
  last match ended. A match of the empty text leaves that position where it is, so the
  loop would find it again for ever: the result \<open>None\<close>.\<close>

function collect :: "regex \<Rightarrow> string \<Rightarrow> jsval list \<Rightarrow> jsval list option" where
  "collect r s ids =
     (case first_match r s of
        None \<Rightarrow> Some ids
      | Some m \<Rightarrow>
          if matched m = [] then None
          else collect r (post_text m) (if grp m 1 \<in> set ids then ids else ids @ [grp m 1]))"
  by pat_completeness auto
termination
  by (relation "measure (\<lambda>(r, s, ids). length s)") (auto simp: first_match_shorter)

declare replace_all.simps [simp del] match_all.simps [simp del] collect.simps [simp del]


text \<open>\<open>body.includes(text)\<close> and \<open>body.match(re)\<close> on a response body: a text has both
  methods, an array has \<open>includes\<close> only (membership), and calling either on anything
  else throws a TypeError.\<close>

fun js_includes :: "jsval \<Rightarrow> string \<Rightarrow> error + bool" where
  "js_includes (JStr s) w = Inr (sublist w s)"
| "js_includes (JArr xs) w = Inr (JStr w \<in> set xs)"
| "js_includes v w = Inl TypeError"

fun js_match :: "jsval \<Rightarrow> regex \<Rightarrow> error + rmatch option" where
  "js_match (JStr s) r = Inr (first_match r s)"
| "js_match v r = Inl TypeError"



section \<open>The session and the HTTP client\<close>

record session =
  baseURL :: string
  cookies :: string
  csrfToken :: jsval
  projectId :: jsval
  environmentId :: jsval
  applicationId :: jsval

text \<open>The \<open>options\<close> argument of \<open>request\<close>: \<open>None\<close> is a property that is not set.
  The program only passes bodies that are texts.\<close>

record options =
  opt_method :: "string option"
  opt_headers :: "(string \<times> jsval) list"
  opt_body :: "string option"

definition no_options :: options where
  "no_options = \<lparr>opt_method = None, opt_headers = [], opt_body = None\<rparr>"

text \<open>What is handed to the transport (\<open>https.request\<close>), and what comes back: the headers
  the program reads (\<open>set-cookie\<close>, a list when present, and \<open>location\<close>), the others,
  and the text of the payload.\<close>

record wire_request =
  req_url :: string
  req_method :: string
  req_headers :: "(string \<times> jsval) list"
  req_body :: "string option"

record res_headers =
  set_cookie :: "string list option"
  location :: "string option"
  other_headers :: "(string \<times> string) list"

record response =
  statusCode :: nat
  res_head :: res_headers
  payload :: string

record http_response =
  status :: nat
  body :: jsval
  headers :: res_headers

fun put :: "string \<Rightarrow> jsval \<Rightarrow> (string \<times> jsval) list \<Rightarrow> (string \<times> jsval) list" where
  "put k v [] = [(k, v)]"
| "put k v ((k', v') # hs) = (if k = k' then (k, v) # hs else (k', v') # put k v hs)"

definition base_headers :: "(string \<times> jsval) list" where
  "base_headers =
     [(''User-Agent'', JStr ''Mozilla/5.0 (X11; Linux x86_64) AppleWebKit/537.36 (KHTML, like Gecko) Chrome/131.0.0.0 Safari/537.36''),
      (''Accept'', JStr ''*/*''),
      (''Accept-Language'', JStr ''en-US,en;q=0.9''),
      (''Connection'', JStr ''keep-alive''),
      (''Accept-Encoding'', JStr ''gzip, deflate, br''),
      (''Cache-Control'', JStr ''no-cache'')]"

fun show_nat :: "nat \<Rightarrow> string" where
  "show_nat n = (if n < 10 then [char_of (48 + n)]
                 else show_nat (n div 10) @ [char_of (48 + n mod 10)])"

declare show_nat.simps [simp del]

text \<open>\<open>Buffer.byteLength\<close>: the length in UTF-8, two bytes for a code unit from 128 on.\<close>

definition byteLength :: "string \<Rightarrow> nat" where
  "byteLength b = sum_list (map (\<lambda>x. if of_char x < (128::nat) then 1 else 2) b)"

definition body_to_send :: "options \<Rightarrow> string option" where
  "body_to_send options =
     (case opt_body options of None \<Rightarrow> None | Some b \<Rightarrow> if b \<noteq> [] then Some b else None)"

definition build_request :: "session \<Rightarrow> string \<Rightarrow> options \<Rightarrow> wire_request" where
  "build_request ss url options =
     (let hs0 = fold (\<lambda>(k, v). put k v) (opt_headers options) base_headers;
          hs1 = (if cookies ss \<noteq> [] then put ''Cookie'' (JStr (cookies ss)) hs0 else hs0);
          hs2 = (if truthy (csrfToken ss) then put ''X-CSRF-Token'' (csrfToken ss) hs1 else hs1);
          hs3 = (case body_to_send options of
                   None \<Rightarrow> hs2
                 | Some b \<Rightarrow> put ''Content-Length'' (JNum (show_nat (byteLength b))) hs2)
      in \<lparr>req_url = url,
          req_method = (case opt_method options of
                          None \<Rightarrow> ''GET''
                        | Some m \<Rightarrow> if m \<noteq> [] then m else ''GET''),
          req_headers = hs3,
          req_body = body_to_send options\<rparr>)"

text \<open>\<open>this.cookies = res.headers['set-cookie'].map(c => c.split(';')[0]).join('; ')\<close>\<close>

definition name_value :: "string \<Rightarrow> string" where
  "name_value c = takeWhile (\<lambda>x. x \<noteq> CHR '';'') c"

definition capture_cookies :: "res_headers \<Rightarrow> session \<Rightarrow> session" where
  "capture_cookies h ss =
     (case set_cookie h of
        None \<Rightarrow> ss
      | Some cs \<Rightarrow> ss\<lparr>cookies := join ''; '' (map name_value cs)\<rparr>)"

definition redirect_url :: "session \<Rightarrow> string \<Rightarrow> string" where
  "redirect_url ss loc = (if prefix ''http'' loc then loc else baseURL ss @ loc)"

text \<open>\<open>JSON.parse\<close> belongs to the runtime: the model takes it as the parameter \<open>J\<close>, with
  \<open>None\<close> for a text it rejects.\<close>

definition parse_body :: "(string \<Rightarrow> jsval option) \<Rightarrow> string \<Rightarrow> jsval" where
  "parse_body J data = (case J data of Some json \<Rightarrow> json | None \<Rightarrow> JStr data)"

definition resolve :: "(string \<Rightarrow> jsval option) \<Rightarrow> response \<Rightarrow> http_response" where
  "resolve J res =
     \<lparr>status = statusCode res, body = parse_body J (payload res), headers = res_head res\<rparr>"

text \<open>
  \<open>request\<close>. Its first statement is \<open>new URL(url)\<close>, which throws a TypeError (code
  \<open>ERR_INVALID_URL\<close>) for a text the runtime's URL parser rejects, before anything is
  sent: the parameter \<open>U\<close> says which texts the parser accepts. The transport \<open>net\<close>
  stands for \<open>https.request\<close> and what is behind it: it answers a request with a response
  or fails, and may change the state \<open>w\<close> of the world outside. A redirect is followed by
  calling \<open>request\<close> again, with nothing to stop a server that keeps redirecting: the
  result \<open>None\<close> is a call that never completes.
\<close>

partial_function (option) request ::
  "(string \<Rightarrow> jsval option) \<Rightarrow> (string \<Rightarrow> bool) \<Rightarrow>
   ('w \<Rightarrow> wire_request \<Rightarrow> (error + response) \<times> 'w) \<Rightarrow>
   string \<Rightarrow> options \<Rightarrow> 'w \<Rightarrow> session \<Rightarrow> ((error + http_response) \<times> 'w \<times> session) option"
where
  "request J U net url options w ss =
     (if \<not> U url then Some (Inl InvalidUrl, w, ss)
      else
       (case net w (build_request ss url options) of
          (Inl e, w') \<Rightarrow> Some (Inl e, w', ss)
        | (Inr res, w') \<Rightarrow>
            let ss' = capture_cookies (res_head res) ss in
            (case location (res_head res) of
               None \<Rightarrow> Some (Inr (resolve J res), w', ss')
             | Some loc \<Rightarrow>
                 if 300 \<le> statusCode res \<and> statusCode res < 400 \<and> loc \<noteq> []
                 then request J U net (redirect_url ss' loc) options w' ss'
                 else Some (Inr (resolve J res), w', ss'))))"

declare request.simps [code]

section \<open>Logging in\<close>

fun seqs :: "regex list \<Rightarrow> regex" where
  "seqs [] = Eps"
| "seqs [r] = r"
| "seqs (r # rs) = Seq r (seqs rs)"

definition star :: "(char \<Rightarrow> bool) \<Rightarrow> regex" where
  "star p = Rep True 0 None (Atom p)"

definition plus :: "(char \<Rightarrow> bool) \<Rightarrow> regex" where
  "plus p = Rep True 1 None (Atom p)"

definition is_not :: "char \<Rightarrow> char \<Rightarrow> bool" where
  "is_not x y = (y \<noteq> x)"

text \<open>\<open>/<meta name="csrf-token" content="([^"]+)"/\<close>\<close>

definition re_csrf :: regex where
  "re_csrf = seqs [lit (''<meta name='' @ [CHR 0x22] @ ''csrf-token'' @ [CHR 0x22] @
                        '' content='' @ [CHR 0x22]),
                   Group 1 (plus (is_not (CHR 0x22))),
                   lit [CHR 0x22]]"

text \<open>\<open>new URLSearchParams({email, password}).toString()\<close>\<close>

definition pct :: "nat \<Rightarrow> string" where
  "pct b = [CHR ''%'', ''0123456789ABCDEF'' ! (b div 16), ''0123456789ABCDEF'' ! (b mod 16)]"

definition urlencode_char :: "char \<Rightarrow> string" where
  "urlencode_char x =
     (if x \<in> set ''ABCDEFGHIJKLMNOPQRSTUVWXYZabcdefghijklmnopqrstuvwxyz0123456789*-._'' then [x]
      else if x = CHR '' '' then ''+''
      else if of_char x < (128::nat) then pct (of_char x)
      else pct (192 + of_char x div 64) @ pct (128 + of_char x mod 64))"

definition login_form :: "string \<Rightarrow> string \<Rightarrow> string" where
  "login_form email password =
     ''email='' @ concat (map urlencode_char email) @
     ''&password='' @ concat (map urlencode_char password)"

text \<open>The \<open>catch\<close> of \<open>login\<close>: an error whose \<open>code\<close> is \<open>ENOTFOUND\<close> (only a
  transport error has a code) becomes advice on how to give the server's address; every
  other error is thrown again.\<close>

definition resolve_advice :: "string \<Rightarrow> string" where
  "resolve_advice base =
     ''Could not resolve Coolify server: '' @ base @ [CHR 0x0A, CHR 0x0A] @
     ''Please specify your Coolify URL using one of these methods:'' @ [CHR 0x0A] @
     ''  1. Command line: coolify-logs https://your-coolify-url'' @ [CHR 0x0A] @
     ''  2. Environment variable: export COOLIFY_URL=https://your-coolify-url'' @ [CHR 0x0A] @
     ''  3. Environment variable: export COOLIFY_HOST=your-coolify-url'' @ [CHR 0x0A, CHR 0x0A] @
     ''Example: coolify-logs https://coolify.example.com''"

definition login_catch :: "session \<Rightarrow> error \<Rightarrow> error" where
  "login_catch ss e =
     (case e of
        Transport code \<Rightarrow> if code = ''ENOTFOUND'' then Error (resolve_advice (baseURL ss)) else e
      | _ \<Rightarrow> e)"

definition login_options :: "session \<Rightarrow> string \<Rightarrow> string \<Rightarrow> options" where
  "login_options ss email password =
     \<lparr>opt_method = Some ''POST'',
      opt_headers = [(''Content-Type'', JStr ''application/x-www-form-urlencoded''),
                     (''X-CSRF-Token'', csrfToken ss),
                     (''Referer'', JStr (baseURL ss @ ''/login''))],
      opt_body = Some (login_form email password)\<rparr>"

definition login ::
  "(string \<Rightarrow> jsval option) \<Rightarrow> (string \<Rightarrow> bool) \<Rightarrow>
   ('w \<Rightarrow> wire_request \<Rightarrow> (error + response) \<times> 'w) \<Rightarrow>
   string \<Rightarrow> string \<Rightarrow> 'w \<Rightarrow> session \<Rightarrow> ((error + bool) \<times> 'w \<times> session) option"
where
  "login J U net email password w ss =
     (case request J U net (baseURL ss @ ''/login'') no_options w ss of
        None \<Rightarrow> None
      | Some (Inl e, w1, s1) \<Rightarrow> Some (Inl (login_catch s1 e), w1, s1)
      | Some (Inr loginPageRes, w1, s1) \<Rightarrow>
          (case js_match (body loginPageRes) re_csrf of
             Inl e \<Rightarrow> Some (Inl (login_catch s1 e), w1, s1)
           | Inr csrfMatch \<Rightarrow>
               let s2 = s1\<lparr>csrfToken := (case csrfMatch of Some m \<Rightarrow> grp m 1 | None \<Rightarrow> JNull)\<rparr>
               in (case request J U net (baseURL s2 @ ''/login'')
                          (login_options s2 email password) w1 s2 of
                     None \<Rightarrow> None
                   | Some (Inl e, w3, s3) \<Rightarrow> Some (Inl (login_catch s3 e), w3, s3)
                   | Some (Inr loginRes, w3, s3) \<Rightarrow>
                       (case js_includes (body loginRes) ''These credentials do not match'' of
                          Inl e \<Rightarrow> Some (Inl (login_catch s3 e), w3, s3)
                        | Inr found \<Rightarrow>
                            if found
                            then Some (Inl (login_catch s3 (Error ''Invalid email or password'')),
                                       w3, s3)
                            else Some (Inr True, w3, s3)))))"

section \<open>Discovering the project, the environment and the application\<close>

text \<open>\<open>/\/project\/([a-z0-9]+)/g\<close> and its two siblings.\<close>

definition re_project :: regex where
  "re_project = seqs [lit ''/project/'', Group 1 (plus lower_alnum)]"

definition re_environment :: regex where
  "re_environment = seqs [lit ''/environment/'', Group 1 (plus lower_alnum)]"

definition re_application :: regex where
  "re_application = seqs [lit ''/application/'', Group 1 (plus lower_alnum)]"

text \<open>\<open>!dashboardRes.body || dashboardRes.body.includes('404')\<close>\<close>

definition wants_root :: "jsval \<Rightarrow> error + bool" where
  "wants_root b = (if \<not> truthy b then Inr True else js_includes b ''404'')"

text \<open>The first statements of \<open>discoverResources\<close>: \<open>/dashboard\<close> is fetched, and the root
  page instead when that body is falsy or includes \<open>404\<close>.\<close>

definition fetch_dashboard ::
  "(string \<Rightarrow> jsval option) \<Rightarrow> (string \<Rightarrow> bool) \<Rightarrow>
   ('w \<Rightarrow> wire_request \<Rightarrow> (error + response) \<times> 'w) \<Rightarrow>
   'w \<Rightarrow> session \<Rightarrow> ((error + http_response) \<times> 'w \<times> session) option"
where
  "fetch_dashboard J U net w ss =
     (case request J U net (baseURL ss @ ''/dashboard'') no_options w ss of
        None \<Rightarrow> None
      | Some (Inl e, w1, s1) \<Rightarrow> Some (Inl e, w1, s1)
      | Some (Inr first, w1, s1) \<Rightarrow>
          (case wants_root (body first) of
             Inl e \<Rightarrow> Some (Inl e, w1, s1)
           | Inr root \<Rightarrow>
               if root then request J U net (baseURL s1 @ ''/'') no_options w1 s1
               else Some (Inr first, w1, s1)))"

text \<open>The loop over \<open>re.exec(v)\<close> that collects identifiers: \<open>exec\<close> first converts \<open>v\<close> to
  a text, which can throw.\<close>

definition exec_ids :: "regex \<Rightarrow> jsval \<Rightarrow> (error + jsval list) option" where
  "exec_ids r v =
     (case to_String v of
        Inl e \<Rightarrow> Some (Inl e)
      | Inr text \<Rightarrow> map_option Inr (collect r text []))"

text \<open>\<open>discoverResources\<close>: every error thrown inside is caught and gives \<open>false\<close>.\<close>

definition discoverResources ::
  "(string \<Rightarrow> jsval option) \<Rightarrow> (string \<Rightarrow> bool) \<Rightarrow>
   ('w \<Rightarrow> wire_request \<Rightarrow> (error + response) \<times> 'w) \<Rightarrow>
   'w \<Rightarrow> session \<Rightarrow> (bool \<times> 'w \<times> session) option"
where
  "discoverResources J U net w ss =
     (case fetch_dashboard J U net w ss of
        None \<Rightarrow> None
      | Some (Inl e, w2, s2) \<Rightarrow> Some (False, w2, s2)
      | Some (Inr dashboardRes, w2, s2) \<Rightarrow>
         (case exec_ids re_project (body dashboardRes) of
            None \<Rightarrow> None
          | Some (Inl e) \<Rightarrow> Some (False, w2, s2)
          | Some (Inr []) \<Rightarrow> Some (False, w2, s2)
          | Some (Inr (p # ps)) \<Rightarrow>
             let s3 = s2\<lparr>projectId := p\<rparr> in
             (case to_String p of
                Inl e \<Rightarrow> Some (False, w2, s3)
              | Inr pid \<Rightarrow>
                 (case request J U net (baseURL s3 @ ''/project/'' @ pid) no_options w2 s3 of
                    None \<Rightarrow> None
                  | Some (Inl e, w4, s4) \<Rightarrow> Some (False, w4, s4)
                  | Some (Inr projectRes, w4, s4) \<Rightarrow>
                     (case exec_ids re_environment (body projectRes) of
                        None \<Rightarrow> None
                      | Some (Inl e) \<Rightarrow> Some (False, w4, s4)
                      | Some (Inr []) \<Rightarrow> Some (False, w4, s4)
                      | Some (Inr (e # es)) \<Rightarrow>
                         let s5 = s4\<lparr>environmentId := e\<rparr> in
                         (case exec_ids re_application (body projectRes) of
                            None \<Rightarrow> None
                          | Some (Inl e') \<Rightarrow> Some (False, w4, s5)
                          | Some (Inr []) \<Rightarrow> Some (False, w4, s5)
                          | Some (Inr (a # as)) \<Rightarrow>
                              Some (True, w4, s5\<lparr>applicationId := a\<rparr>)))))))"

section \<open>Listing the deployments\<close>

text \<open>\<open>/\/deployment\/([a-z0-9]{24})[^<]*(?:<[^>]*>)*([^<]*(?:Success|Failed|Running|Pending)[^<]*)/g\<close>
  and the fallback \<open>/\/deployment\/([a-z0-9]{24})/g\<close>.\<close>

definition deploymentPattern :: regex where
  "deploymentPattern =
     seqs [lit ''/deployment/'',
           Group 1 (Rep True 24 (Some 24) (Atom lower_alnum)),
           star (is_not (CHR ''<'')),
           Rep True 0 None (seqs [lit ''<'', star (is_not (CHR ''>'')), lit ''>'']),
           Group 2 (seqs [star (is_not (CHR ''<'')),
                          alts [lit ''Success'', lit ''Failed'', lit ''Running'', lit ''Pending''],
                          star (is_not (CHR ''<''))])]"

definition deploymentRegex :: regex where
  "deploymentRegex = seqs [lit ''/deployment/'', Group 1 (Rep True 24 (Some 24) (Atom lower_alnum))]"

definition deployments_url :: "session \<Rightarrow> error + string" where
  "deployments_url ss =
     (case to_String (projectId ss) of
        Inl e \<Rightarrow> Inl e
      | Inr p \<Rightarrow>
         (case to_String (environmentId ss) of
            Inl e \<Rightarrow> Inl e
          | Inr env \<Rightarrow>
             (case to_String (applicationId ss) of
                Inl e \<Rightarrow> Inl e
              | Inr app \<Rightarrow>
                  Inr (baseURL ss @ ''/project/'' @ p @ ''/environment/'' @ env @
                       ''/application/'' @ app @ ''/deployment''))))"


section \<open>Extracting the logs of a deployment\<close>

text \<open>The regular expressions of \<open>getDeploymentLogs\<close>:
  \<open>/wire:snapshot="([^"]+)"/\<close>,
  \<open>/<[^>]*>(Error|Server is not functional)[^<]*<\/[^>]*>/\<close>,
  \<open>/<pre[^>]*>([\s\S]{1,5000}?)<\/pre>/\<close>, the same for \<open>code\<close>, and
  \<open>/(step|clone|install|build|error|failed|success|docker)[^\n]{0,200}/gi\<close>.\<close>

definition re_wire :: regex where
  "re_wire = seqs [lit (''wire:snapshot='' @ [CHR 0x22]),
                   Group 1 (plus (is_not (CHR 0x22))),
                   lit [CHR 0x22]]"

definition re_error :: regex where
  "re_error = seqs [lit ''<'', star (is_not (CHR ''>'')), lit ''>'',
                    Group 1 (Alt (lit ''Error'') (lit ''Server is not functional'')),
                    star (is_not (CHR ''<'')),
                    lit ''</'', star (is_not (CHR ''>'')), lit ''>'']"

definition re_block :: "string \<Rightarrow> regex" where
  "re_block tag = seqs [lit (''<'' @ tag), star (is_not (CHR ''>'')), lit ''>'',
                        Group 1 (Rep False 1 (Some 5000) (Atom (\<lambda>x. True))),
                        lit (''</'' @ tag @ ''>'')]"

definition re_keyword :: regex where
  "re_keyword =
     seqs [Group 1 (alts (map lit_i [''step'', ''clone'', ''install'', ''build'', ''error'',
                                      ''failed'', ''success'', ''docker''])),
           Rep True 0 (Some 200) (Atom (is_not (CHR 0x0A)))]"

text \<open>The entity decoding of the snapshot attribute.\<close>

definition decode_snapshot :: "string \<Rightarrow> string" where
  "decode_snapshot a =
     replace_all (lit ''&amp;'') ''&''
       (replace_all (lit ''&gt;'') ''>''
         (replace_all (lit ''&lt;'') ''<''
           (replace_all (lit ''&quot;'') [CHR 0x22] a)))"

definition long_text :: "jsval \<Rightarrow> bool" where
  "long_text v = (case v of JStr x \<Rightarrow> 500 < length x | _ \<Rightarrow> False)"

text \<open>The body of the \<open>try\<close> of strategy 1, on the state \<open>(logsContent, logFound)\<close>:
  \<open>Inl\<close> is an exception thrown inside it.\<close>

definition try_snapshot ::
  "(string \<Rightarrow> jsval option) \<Rightarrow> string \<Rightarrow> jsval \<times> bool \<Rightarrow> error + jsval \<times> bool"
where
  "try_snapshot J snapshot st =
     (case J (decode_snapshot snapshot) of
        None \<Rightarrow> Inl SyntaxError
      | Some wireData \<Rightarrow>
          (case js_get wireData ''data'' of
             Inl e \<Rightarrow> Inl e
           | Inr d \<Rightarrow>
               if truthy d \<and> truthy (field d ''output'') then Inr (field d ''output'', True)
               else if truthy d \<and> truthy (field d ''logs'') then Inr (field d ''logs'', True)
               else if truthy d \<and> truthy (field d ''deployment_logs'')
                 then Inr (field d ''deployment_logs'', True)
               else if truthy d then
                 (case find long_text (entry_values d) of
                    Some v \<Rightarrow> Inr (v, True)
                  | None \<Rightarrow> Inr st)
               else Inr st))"

text \<open>The five strategies, each a step on the state \<open>(logsContent, logFound)\<close>, in the
  order of the source. The \<open>catch\<close> of strategy 1 only prints the error.\<close>

definition strategy1 :: "(string \<Rightarrow> jsval option) \<Rightarrow> string \<Rightarrow> jsval \<times> bool \<Rightarrow> jsval \<times> bool" where
  "strategy1 J page st =
     (case first_match re_wire page of
        None \<Rightarrow> st
      | Some wireMatch \<Rightarrow>
          (case grp wireMatch 1 of
             JStr snapshot \<Rightarrow> (case try_snapshot J snapshot st of Inl e \<Rightarrow> st | Inr st' \<Rightarrow> st')
           | _ \<Rightarrow> st))"

definition strategy2 :: "string \<Rightarrow> jsval \<times> bool \<Rightarrow> jsval \<times> bool" where
  "strategy2 page st =
     (if \<not> snd st then
        (case first_match re_error page of
           None \<Rightarrow> st
         | Some errorMatch \<Rightarrow> (grp errorMatch 0, True))
      else st)"

definition strategy3 :: "string \<Rightarrow> jsval \<times> bool \<Rightarrow> jsval \<times> bool" where
  "strategy3 page st =
     (if \<not> snd st then
        (case first_match (re_block ''pre'') page of
           None \<Rightarrow> st
         | Some preMatch \<Rightarrow> (grp preMatch 1, True))
      else st)"

definition strategy4 :: "string \<Rightarrow> jsval \<times> bool \<Rightarrow> jsval \<times> bool" where
  "strategy4 page st =
     (if \<not> snd st then
        (case first_match (re_block ''code'') page of
           None \<Rightarrow> st
         | Some codeMatch \<Rightarrow> (grp codeMatch 1, True))
      else st)"

definition strategy5 :: "string \<Rightarrow> jsval \<times> bool \<Rightarrow> jsval \<times> bool" where
  "strategy5 page st =
     (if \<not> snd st then
        (let textMatch = match_all re_keyword page
         in if textMatch \<noteq> [] then (JStr (join [CHR 0x0A] textMatch), True) else st)
      else st)"

text \<open>The normalisation of the text that won.\<close>

definition normalize :: "string \<Rightarrow> string" where
  "normalize t =
     (let t1 = replace_all (lit ''&lt;'') ''<'' t;
          t2 = replace_all (lit ''&gt;'') ''>'' t1;
          t3 = replace_all (lit ''&amp;'') ''&'' t2;
          t4 = replace_all (lit ''&quot;'') [CHR 0x22] t3;
          t5 = replace_all (lit ''&#039;'') [CHR 0x27] t4;
          t6 = replace_all (lit ''&nbsp;'') '' '' t5;
          t7 = replace_all (lit [CHR 0x5C, CHR ''n'']) [CHR 0x0A] t6;
          t8 = replace_all (lit [CHR 0x5C, CHR ''r'']) [CHR 0x0D] t7;
          t9 = replace_all (lit [CHR 0x5C, CHR ''t'']) [CHR 0x09] t8;
          t10 = replace_all (seqs [lit_i ''<br'', star white_space,
                                   Rep True 0 (Some 1) (lit ''/''), lit ''>'']) [CHR 0x0A] t9
      in replace_all (seqs [lit ''<'', plus (is_not (CHR ''>'')), lit ''>'']) [] t10)"

definition cascade :: "(string \<Rightarrow> jsval option) \<Rightarrow> string \<Rightarrow> jsval \<times> bool" where
  "cascade J page =
     strategy5 page (strategy4 page (strategy3 page (strategy2 page
       (strategy1 J page (JNull, False)))))"

text \<open>The end of \<open>getDeploymentLogs\<close>: \<open>String(logsContent)\<close> is outside every \<open>try\<close>.\<close>

definition deliver :: "jsval \<times> bool \<Rightarrow> error + jsval" where
  "deliver st =
     (if snd st \<and> truthy (fst st) then
        (case to_String (fst st) of
           Inl e \<Rightarrow> Inl e
         | Inr t \<Rightarrow> Inr (JStr (normalize t)))
      else Inr JNull)"

text \<open>The extraction on the body of the response. Its first statement calls
  \<open>res.body.match\<close>, which only a text has: any other body throws a TypeError there.\<close>

definition extract_logs :: "(string \<Rightarrow> jsval option) \<Rightarrow> jsval \<Rightarrow> error + jsval" where
  "extract_logs J b = (case b of JStr page \<Rightarrow> deliver (cascade J page) | _ \<Rightarrow> Inl TypeError)"

definition deployment_url :: "session \<Rightarrow> jsval \<Rightarrow> error + string" where
  "deployment_url ss deploymentId =
     (case deployments_url ss of
        Inl e \<Rightarrow> Inl e
      | Inr list_url \<Rightarrow>
         (case to_String deploymentId of
            Inl e \<Rightarrow> Inl e
          | Inr d \<Rightarrow> Inr (list_url @ ''/'' @ d)))"

definition getDeploymentLogs ::
  "(string \<Rightarrow> jsval option) \<Rightarrow> (string \<Rightarrow> bool) \<Rightarrow>
   ('w \<Rightarrow> wire_request \<Rightarrow> (error + response) \<times> 'w) \<Rightarrow>
   jsval \<Rightarrow> 'w \<Rightarrow> session \<Rightarrow> ((error + jsval) \<times> 'w \<times> session) option"
where
  "getDeploymentLogs J U net deploymentId w ss =
     (case deployment_url ss deploymentId of
        Inl e \<Rightarrow> Some (Inl e, w, ss)
      | Inr logsPageUrl \<Rightarrow>
         (case request J U net logsPageUrl no_options w ss of
            None \<Rightarrow> None
          | Some (Inl e, w1, s1) \<Rightarrow> Some (Inl e, w1, s1)
          | Some (Inr res, w1, s1) \<Rightarrow> Some (extract_logs J (body res), w1, s1)))"

section \<open>Properties of the HTTP client\<close>

text \<open>A response is a redirect the client follows when its status is from 300 to 399
  and its \<open>location\<close> header is a non-empty text.\<close>

definition redirects :: "response \<Rightarrow> bool" where
  "redirects res = (300 \<le> statusCode res \<and> statusCode res < 400 \<and>
     (case location (res_head res) of None \<Rightarrow> False | Some loc \<Rightarrow> loc \<noteq> []))"

lemma request_invalid:
  "\<not> U url \<Longrightarrow> request J U net url options w ss = Some (Inl InvalidUrl, w, ss)"
  by (subst request.simps) simp

lemma request_fail:
  "U url \<Longrightarrow> net w (build_request ss url options) = (Inl e, w') \<Longrightarrow>
   request J U net url options w ss = Some (Inl e, w', ss)"
  by (subst request.simps) simp

lemma request_final:
  "U url \<Longrightarrow> net w (build_request ss url options) = (Inr res, w') \<Longrightarrow> \<not> redirects res \<Longrightarrow>
   request J U net url options w ss =
   Some (Inr (resolve J res), w', capture_cookies (res_head res) ss)"
  by (subst request.simps) (auto simp: redirects_def Let_def split: option.splits)

lemma request_redirect:
  "U url \<Longrightarrow> net w (build_request ss url options) = (Inr res, w') \<Longrightarrow> redirects res \<Longrightarrow>
   location (res_head res) = Some loc \<Longrightarrow>
   request J U net url options w ss =
   request J U net (redirect_url (capture_cookies (res_head res) ss) loc) options w'
     (capture_cookies (res_head res) ss)"
  by (subst request.simps) (auto simp: redirects_def Let_def split: option.splits)

lemma capture_cookies_only:
  "capture_cookies h ss = ss\<lparr>cookies := cookies (capture_cookies h ss)\<rparr>"
  by (simp add: capture_cookies_def split: option.splits)

lemma request_returned:
  assumes "request J U net url options w ss = Some y"
  shows "case fst y of
            Inl e \<Rightarrow> e = InvalidUrl \<or> (\<exists>w0 q. net w0 q = (Inl e, fst (snd y)))
          | Inr r \<Rightarrow> (\<exists>w0 q res. net w0 q = (Inr res, fst (snd y)) \<and> \<not> redirects res \<and>
                        r = resolve J res)"
proof (rule request.raw_induct[where P = "\<lambda>J U net url options w ss y.
         case fst y of
            Inl e \<Rightarrow> e = InvalidUrl \<or> (\<exists>w0 q. net w0 q = (Inl e, fst (snd y)))
          | Inr r \<Rightarrow> (\<exists>w0 q res. net w0 q = (Inr res, fst (snd y)) \<and> \<not> redirects res \<and>
                        r = resolve J res)", OF _ assms], goal_cases)
  case (1 request J U net url options w ss y)
  show ?case
  proof (cases "U url")
    case False
    with 1(2) have "y = (Inl InvalidUrl, w, ss)" by simp
    then show ?thesis by simp
  next
    case ok: True
    obtain out w' where n: "net w (build_request ss url options) = (out, w')"
      by (cases "net w (build_request ss url options)")
    show ?thesis
    proof (cases out)
      case (Inl e)
      with 1(2) n ok have "y = (Inl e, w', ss)" by simp
      with n Inl show ?thesis by auto
    next
      case (Inr res)
      show ?thesis
      proof (cases "redirects res")
        case True
        then obtain loc where l: "location (res_head res) = Some loc"
          and c: "300 \<le> statusCode res \<and> statusCode res < 400 \<and> loc \<noteq> []"
          by (auto simp: redirects_def split: option.splits)
        with 1(2) n Inr ok have
          "request J U net (redirect_url (capture_cookies (res_head res) ss) loc) options w'
             (capture_cookies (res_head res) ss) = Some y"
          by (simp add: Let_def)
        from 1(1)[OF this] show ?thesis .
      next
        case False
        with 1(2) n Inr ok
        have y: "y = (Inr (resolve J res), w', capture_cookies (res_head res) ss)"
          by (cases "location (res_head res)") (auto simp: redirects_def Let_def split: if_splits)
        from n Inr False show ?thesis unfolding y by auto
      qed
    qed
  qed
qed

lemma request_session:
  assumes "request J U net url options w ss = Some y"
  shows "snd (snd y) = ss\<lparr>cookies := cookies (snd (snd y))\<rparr>"
proof (rule request.raw_induct[where P = "\<lambda>J U net url options w ss y.
          snd (snd y) = ss\<lparr>cookies := cookies (snd (snd y))\<rparr>", OF _ assms], goal_cases)
  case (1 request J U net url options w ss y)
  show ?case
  proof (cases "U url")
    case False
    with 1(2) have "y = (Inl InvalidUrl, w, ss)" by simp
    then show ?thesis by simp
  next
    case ok: True
    obtain out w' where n: "net w (build_request ss url options) = (out, w')"
      by (cases "net w (build_request ss url options)")
    show ?thesis
    proof (cases out)
      case (Inl e)
      with 1(2) n ok have "y = (Inl e, w', ss)" by simp
      then show ?thesis by simp
    next
      case (Inr res)
      show ?thesis
      proof (cases "redirects res")
        case True
        then obtain loc where l: "location (res_head res) = Some loc"
          and c: "300 \<le> statusCode res \<and> statusCode res < 400 \<and> loc \<noteq> []"
          by (auto simp: redirects_def split: option.splits)
        with 1(2) n Inr ok have
          "request J U net (redirect_url (capture_cookies (res_head res) ss) loc) options w'
             (capture_cookies (res_head res) ss) = Some y"
          by (simp add: Let_def)
        from 1(1)[OF this] have
          "snd (snd y) = (capture_cookies (res_head res) ss)\<lparr>cookies := cookies (snd (snd y))\<rparr>" .
        then show ?thesis
          by (subst (asm) capture_cookies_only) simp
      next
        case False
        with 1(2) n Inr ok
        have y: "y = (Inr (resolve J res), w', capture_cookies (res_head res) ss)"
          by (cases "location (res_head res)") (auto simp: redirects_def Let_def split: if_splits)
        show ?thesis unfolding y using capture_cookies_only[of "res_head res" ss] by simp
      qed
    qed
  qed
qed


text \<open>Fixtures for the examples: a session as the constructor leaves it, responses, a
  transport that replays a list of responses and records the requests it was handed (a
  connection reset once the list is used up), and \<open>JSON.parse\<close> and the URL parser given
  as tables: the texts listed parse to the values beside them, or are the ones accepted,
  and every other text is rejected.\<close>

definition fresh_session :: "string \<Rightarrow> session" where
  "fresh_session base =
     \<lparr>baseURL = base, cookies = [], csrfToken = JNull,
      projectId = JNull, environmentId = JNull, applicationId = JNull\<rparr>"

definition plain :: "nat \<Rightarrow> string \<Rightarrow> response" where
  "plain code text =
     \<lparr>statusCode = code,
      res_head = \<lparr>set_cookie = None, location = None, other_headers = []\<rparr>,
      payload = text\<rparr>"

definition redirect_to :: "nat \<Rightarrow> string \<Rightarrow> response" where
  "redirect_to code loc =
     \<lparr>statusCode = code,
      res_head = \<lparr>set_cookie = None, location = Some loc, other_headers = []\<rparr>,
      payload = []\<rparr>"

definition with_cookies :: "string list \<Rightarrow> response \<Rightarrow> response" where
  "with_cookies cs res = res\<lparr>res_head := (res_head res)\<lparr>set_cookie := Some cs\<rparr>\<rparr>"

definition replay ::
  "response list \<Rightarrow> wire_request list \<Rightarrow> wire_request \<Rightarrow> (error + response) \<times> wire_request list"
where
  "replay rs log q =
     (if length log < length rs then Inr (rs ! length log) else Inl (Transport ''ECONNRESET''),
      log @ [q])"

definition json_table :: "(string \<times> jsval) list \<Rightarrow> string \<Rightarrow> jsval option" where
  "json_table t = map_of t"

definition url_table :: "string list \<Rightarrow> string \<Rightarrow> bool" where
  "url_table us u = (u \<in> set us)"

text \<open>
  Claim C7. The body \<open>request\<close> returns is the value \<open>JSON.parse\<close> gives for the whole
  payload when the payload is valid JSON, and the payload's text unchanged otherwise. First
  conjunct: for a URL the parser accepts, a response that is not a redirect is returned at
  once, with that body. Second conjunct: whatever response \<open>request\<close> returns, also after
  redirects, is a response the transport delivered, with that body.
\<close>

theorem request_body_json_or_text:
  "(U url \<and> net w (build_request ss url options) = (Inr res, w') \<and> \<not> redirects res \<longrightarrow>
      (\<exists>r s'. request J U net url options w ss = Some (Inr r, w', s') \<and>
          status r = statusCode res \<and>
          body r = (case J (payload res) of Some json \<Rightarrow> json | None \<Rightarrow> JStr (payload res)))) \<and>
   (\<forall>r w1 s1. request J U net url options w ss = Some (Inr r, w1, s1) \<longrightarrow>
      (\<exists>w0 q res. net w0 q = (Inr res, w1) \<and> status r = statusCode res \<and>
          body r = (case J (payload res) of Some json \<Rightarrow> json | None \<Rightarrow> JStr (payload res))))"
proof (intro conjI impI allI)
  assume "U url \<and> net w (build_request ss url options) = (Inr res, w') \<and> \<not> redirects res"
  then have "request J U net url options w ss =
      Some (Inr (resolve J res), w', capture_cookies (res_head res) ss)"
    by (simp add: request_final)
  then show "\<exists>r s'. request J U net url options w ss = Some (Inr r, w', s') \<and>
          status r = statusCode res \<and>
          body r = (case J (payload res) of Some json \<Rightarrow> json | None \<Rightarrow> JStr (payload res))"
    by (simp add: resolve_def parse_body_def)
next
  fix r w1 s1
  assume "request J U net url options w ss = Some (Inr r, w1, s1)"
  from request_returned[OF this] obtain w0 q res where
    "net w0 q = (Inr res, w1)" "r = resolve J res" by auto
  then show "\<exists>w0 q res. net w0 q = (Inr res, w1) \<and> status r = statusCode res \<and>
          body r = (case J (payload res) of Some json \<Rightarrow> json | None \<Rightarrow> JStr (payload res))"
    by (auto simp: resolve_def parse_body_def)
qed

theorem request_body_json_or_text_witness:
  "request (json_table [(''[1]'', JArr [JNum ''1''])]) (url_table [''https://c.example/x''])
       (replay [plain 200 ''[1]''])
       ''https://c.example/x'' no_options [] (fresh_session ''https://c.example'') =
     Some (Inr \<lparr>status = 200, body = JArr [JNum ''1''],
                 headers = \<lparr>set_cookie = None, location = None, other_headers = []\<rparr>\<rparr>,
           [build_request (fresh_session ''https://c.example'') ''https://c.example/x'' no_options],
           fresh_session ''https://c.example'') \<and>
   request (json_table [(''[1]'', JArr [JNum ''1''])]) (url_table [''https://c.example/x''])
       (replay [plain 200 ''<p>[1]</p>''])
       ''https://c.example/x'' no_options [] (fresh_session ''https://c.example'') =
     Some (Inr \<lparr>status = 200, body = JStr ''<p>[1]</p>'',
                 headers = \<lparr>set_cookie = None, location = None, other_headers = []\<rparr>\<rparr>,
           [build_request (fresh_session ''https://c.example'') ''https://c.example/x'' no_options],
           fresh_session ''https://c.example'')"
proof -
  let ?J = "json_table [(''[1]'', JArr [JNum ''1''])]"
  let ?U = "url_table [''https://c.example/x'']"
  let ?s = "fresh_session ''https://c.example''"
  let ?q = "build_request ?s ''https://c.example/x'' no_options"
  have a: "\<exists>r s'. request ?J ?U (replay [plain 200 t]) ''https://c.example/x'' no_options [] ?s =
             Some (Inr r, [?q], s') \<and> status r = statusCode (plain 200 t) \<and>
             body r = (case ?J (payload (plain 200 t)) of Some json \<Rightarrow> json
                       | None \<Rightarrow> JStr (payload (plain 200 t)))" for t
    using request_body_json_or_text[where J = ?J and U = ?U and net = "replay [plain 200 t]"
        and w = "[]" and url = "''https://c.example/x''" and options = no_options and ss = ?s
        and res = "plain 200 t" and w' = "[?q]"]
    by (simp add: replay_def plain_def redirects_def url_table_def)
  have e: "request ?J ?U (replay [plain 200 t]) ''https://c.example/x'' no_options [] ?s =
        Some (Inr (resolve ?J (plain 200 t)), [?q], ?s)" for t
    using request_final[where J = ?J and U = ?U and net = "replay [plain 200 t]"
        and w = "[]" and url = "''https://c.example/x''" and options = no_options and ss = ?s
        and res = "plain 200 t" and w' = "[?q]"]
    by (simp add: replay_def plain_def redirects_def url_table_def capture_cookies_def)
  from a[of "''[1]''"] a[of "''<p>[1]</p>''"] show ?thesis
    unfolding e by (simp add: resolve_def parse_body_def json_table_def plain_def)
qed

text \<open>A server that answers every request with a redirect.\<close>

definition always_redirect :: "'w \<Rightarrow> wire_request \<Rightarrow> (error + response) \<times> 'w" where
  "always_redirect w q = (Inr (redirect_to 302 ''/login''), w)"

lemma request_never_completes:
  assumes "U url" and "U (baseURL ss @ ''/login'')"
  shows "request J U always_redirect url options w ss = None"
proof (cases "request J U always_redirect url options w ss")
  case None
  then show ?thesis .
next
  case (Some y)
  have "U url \<and> U (baseURL ss @ ''/login'') \<longrightarrow> False"
  proof (rule request.raw_induct[where P = "\<lambda>J U' net url options w ss' y.
            net = always_redirect \<and> U' = U \<and> baseURL ss' = baseURL ss \<longrightarrow>
            (U url \<and> U (baseURL ss @ ''/login'') \<longrightarrow> False)",
          OF _ Some, THEN mp], goal_cases)
    case (1 request J U' net url options w ss' y)
    show ?case
    proof (intro impI)
      assume net: "net = always_redirect \<and> U' = U \<and> baseURL ss' = baseURL ss"
        and ok: "U url \<and> U (baseURL ss @ ''/login'')"
      with 1(2) have "request J U net (baseURL ss @ ''/login'') options w ss' = Some y"
        by (simp add: always_redirect_def redirect_to_def capture_cookies_def redirect_url_def)
      from 1(1)[OF this] net ok show False by simp
    qed
  next
    case 2
    show ?case by simp
  qed
  with assms show ?thesis by simp
qed

lemma request_chain:
  assumes "length log \<le> N" and "U url" and "U (baseURL ss @ ''/login'')"
  shows "\<exists>y. request J U (replay (replicate N (redirect_to 302 ''/login'') @ [plain 200 []]))
               url options log ss = Some y \<and> length (fst (snd y)) = Suc N"
  using assms(1,2)
proof (induction "N - length log" arbitrary: log url)
  case 0
  then have len: "length log = N" by simp
  let ?net = "replay (replicate N (redirect_to 302 ''/login'') @ [plain 200 []])"
  have "?net log (build_request ss url options) =
          (Inr (plain 200 []), log @ [build_request ss url options])"
    using len by (simp add: replay_def nth_append)
  from request_final[where net = ?net and J = J and U = U, OF "0.prems"(2) this]
  show ?case using len by (simp add: redirects_def plain_def)
next
  case (Suc k)
  then have lt: "length log < N" by simp
  let ?net = "replay (replicate N (redirect_to 302 ''/login'') @ [plain 200 []])"
  have n: "?net log (build_request ss url options) =
          (Inr (redirect_to 302 ''/login''), log @ [build_request ss url options])"
    using lt by (simp add: replay_def nth_append)
  have r: "redirects (redirect_to 302 ''/login'')" by (simp add: redirects_def redirect_to_def)
  have l: "location (res_head (redirect_to 302 ''/login'')) = Some ''/login''"
    by (simp add: redirect_to_def)
  have c: "capture_cookies (res_head (redirect_to 302 ''/login'')) ss = ss"
    by (simp add: capture_cookies_def redirect_to_def)
  have t: "redirect_url ss ''/login'' = baseURL ss @ ''/login''" by (simp add: redirect_url_def)
  have "k = N - length (log @ [build_request ss url options])" using Suc(2) by simp
  moreover have "length (log @ [build_request ss url options]) \<le> N" using lt by simp
  ultimately obtain y where
    "request J U ?net (baseURL ss @ ''/login'') options (log @ [build_request ss url options]) ss
       = Some y \<and> length (fst (snd y)) = Suc N"
    using Suc(1) assms(3) by blast
  then show ?case
    using request_redirect[where net = ?net and J = J and U = U, OF Suc.prems(2) n r l] c t by auto
qed

text \<open>
  Claim C8. Nothing bounds the redirects \<open>request\<close> follows. For URLs the parser accepts
  (the one asked for and the redirect's target), against a server that always redirects
  the call never completes; and for every \<open>N\<close> there is a server that redirects \<open>N\<close>
  times before it answers, for which \<open>request\<close> completes only after it has handed
  \<open>N + 1\<close> requests to the transport. So no \<open>N\<close> bounds the chain.
\<close>

theorem redirects_unbounded:
  assumes "U url" and "U (baseURL ss @ ''/login'')"
  shows "request J U always_redirect url options w ss = None \<and>
   (\<forall>N. \<exists>y. request J U (replay (replicate N (redirect_to 302 ''/login'') @ [plain 200 []]))
                 url options [] ss = Some y \<and> length (fst (snd y)) = Suc N)"
  using request_never_completes[OF assms, of J options w]
    request_chain[of "[]" _ U url ss J options, OF _ assms]
  by simp

theorem redirects_unbounded_witness:
  "request (json_table []) (url_table [''https://c.example/x'', ''https://c.example/login''])
     always_redirect ''https://c.example/x'' no_options (0::nat)
     (fresh_session ''https://c.example'') = None \<and>
   (\<exists>y. request (json_table []) (url_table [''https://c.example/x'', ''https://c.example/login''])
          (replay (replicate 11 (redirect_to 302 ''/login'') @ [plain 200 []]))
          ''https://c.example/x'' no_options [] (fresh_session ''https://c.example'') = Some y \<and>
        length (fst (snd y)) = 12)"
proof -
  have u: "url_table [''https://c.example/x'', ''https://c.example/login''] ''https://c.example/x''"
    "url_table [''https://c.example/x'', ''https://c.example/login'']
       (baseURL (fresh_session ''https://c.example'') @ ''/login'')"
    by (simp_all add: url_table_def fresh_session_def)
  from redirects_unbounded[where J = "json_table []" and options = no_options and w = "0::nat",
      OF u]
  show ?thesis by (elim conjE, intro conjI) (assumption, drule spec[of _ 11], simp)
qed


subsection \<open>What a request carries\<close>

lemma map_of_put: "map_of (put k v hs) k' = (if k' = k then Some v else map_of hs k')"
  by (induction hs) auto

lemma map_of_overlay:
  "map_of (fold (\<lambda>(k, v). put k v) hs base) k =
     (case map_of (rev hs) k of Some v \<Rightarrow> Some v | None \<Rightarrow> map_of base k)"
proof (induction hs arbitrary: base)
  case Nil
  show ?case by simp
next
  case (Cons h hs)
  obtain k0 v0 where h: "h = (k0, v0)" by (cases h)
  show ?case
    by (simp add: h Cons.IH map_of_put map_add_def split: option.splits)
qed

lemma request_url [simp]: "req_url (build_request ss url options) = url"
  by (simp add: build_request_def Let_def)

lemma request_method:
  "req_method (build_request ss url options) =
     (case opt_method options of None \<Rightarrow> ''GET'' | Some m \<Rightarrow> if m = [] then ''GET'' else m)"
  by (simp add: build_request_def Let_def split: option.splits)

lemma request_body:
  "req_body (build_request ss url options) =
     (case opt_body options of None \<Rightarrow> None | Some b \<Rightarrow> if b = [] then None else Some b)"
  by (simp add: build_request_def Let_def body_to_send_def split: option.splits)

lemma request_header:
  "k \<noteq> ''Cookie'' \<Longrightarrow> k \<noteq> ''X-CSRF-Token'' \<Longrightarrow> k \<noteq> ''Content-Length'' \<Longrightarrow>
   map_of (req_headers (build_request ss url options)) k =
     (case map_of (rev (opt_headers options)) k of
        Some v \<Rightarrow> Some v
      | None \<Rightarrow> map_of base_headers k)"
  by (simp add: build_request_def Let_def map_of_put map_of_overlay split: option.splits)

lemma request_cookie_header:
  "map_of (req_headers (build_request ss url options)) ''Cookie'' =
     (if cookies ss \<noteq> [] then Some (JStr (cookies ss))
      else map_of (rev (opt_headers options)) ''Cookie'')"
  by (simp add: build_request_def Let_def map_of_put map_of_overlay base_headers_def
      split: option.splits)

text \<open>What an example shows of a call of \<open>request\<close>: the error or the status returned,
  and the URLs of the requests handed to the transport.\<close>

definition outcome ::
  "((error + http_response) \<times> wire_request list \<times> session) option \<Rightarrow>
   ((error + nat) \<times> string list) option"
where
  "outcome = map_option (\<lambda>(out, log, ss). (map_sum id status out, map req_url log))"

definition post_options :: options where
  "post_options = \<lparr>opt_method = Some ''POST'',
                    opt_headers = [(''Referer'', JStr ''https://c.example/login'')],
                    opt_body = Some ''email=a&password=b''\<rparr>"

text \<open>
  Claim C3 fails as stated, three times over, for a POST to \<open>{base}/a/b\<close> answered with
  status 302. A Location header with an empty value is not followed: the 302 itself is
  returned after one request. The relative Location \<open>http.html\<close> is not appended to the
  base: it is taken as the URL, which the parser rejects. The absolute Location
  \<open>HTTPS://other.example/x\<close> is not used as it is: it is appended to the base.
\<close>

theorem redirect_counterexample:
  "outcome (request (json_table []) (url_table [''https://c.example/a/b''])
      (replay [redirect_to 302 [], plain 200 ''done''])
      ''https://c.example/a/b'' post_options [] (fresh_session ''https://c.example''))
     = Some (Inr 302, [''https://c.example/a/b'']) \<and>
   outcome (request (json_table []) (url_table [''https://c.example/a/b''])
      (replay [redirect_to 302 ''http.html'', plain 200 ''done''])
      ''https://c.example/a/b'' post_options [] (fresh_session ''https://c.example''))
     = Some (Inl InvalidUrl, [''https://c.example/a/b'']) \<and>
   outcome (request (json_table [])
      (url_table [''https://c.example/a/b'', ''https://c.exampleHTTPS://other.example/x''])
      (replay [redirect_to 302 ''HTTPS://other.example/x'', plain 200 ''done''])
      ''https://c.example/a/b'' post_options [] (fresh_session ''https://c.example''))
     = Some (Inr 200, [''https://c.example/a/b'', ''https://c.exampleHTTPS://other.example/x''])"
  by code_simp

text \<open>
  Claim C3, amended. For a URL the parser accepts and a response with a status from 300 to
  399 that has a Location header: when the header's value is empty the response is returned
  as it is; otherwise \<open>request\<close> calls itself with the same \<open>options\<close>, the session
  with the cookies of that response, and as URL the Location itself when it starts with
  \<open>http\<close>, \<open>baseURL\<close> followed by the Location when it does not (so \<open>/foo\<close> gives
  \<open>{base}/foo\<close> whatever the path of the redirecting URL was). Second conjunct: the request
  built for any URL from these options has that URL, the method and the body of the options,
  and each header of the options or else of the baseline (the three headers the client sets
  itself apart). Third conjunct: the call for the target rejects without sending anything
  when the parser refuses the target, and otherwise hands the transport the request so built.
\<close>

theorem redirect_target:
  assumes "U url" and "net w (build_request ss url options) = (Inr res, w')"
    and "300 \<le> statusCode res" and "statusCode res < 400"
    and "location (res_head res) = Some loc"
  shows
    "request J U net url options w ss =
       (if loc = [] then Some (Inr (resolve J res), w', capture_cookies (res_head res) ss)
        else request J U net (if prefix ''http'' loc then loc else baseURL ss @ loc) options w'
               (capture_cookies (res_head res) ss)) \<and>
     (\<forall>target ss'.
        req_url (build_request ss' target options) = target \<and>
        req_method (build_request ss' target options) =
          (case opt_method options of None \<Rightarrow> ''GET'' | Some m \<Rightarrow> if m = [] then ''GET'' else m) \<and>
        req_body (build_request ss' target options) =
          (case opt_body options of None \<Rightarrow> None | Some b \<Rightarrow> if b = [] then None else Some b) \<and>
        (\<forall>k. k \<noteq> ''Cookie'' \<and> k \<noteq> ''X-CSRF-Token'' \<and> k \<noteq> ''Content-Length'' \<longrightarrow>
           map_of (req_headers (build_request ss' target options)) k =
             (case map_of (rev (opt_headers options)) k of
                Some v \<Rightarrow> Some v
              | None \<Rightarrow> map_of base_headers k))) \<and>
     (\<forall>target ss'.
        request J U net target options w' ss' =
          (if \<not> U target then Some (Inl InvalidUrl, w', ss')
           else case net w' (build_request ss' target options) of
                  (Inl e, w'') \<Rightarrow> Some (Inl e, w'', ss')
                | (Inr res', w'') \<Rightarrow>
                    if redirects res'
                    then request J U net
                           (redirect_url (capture_cookies (res_head res') ss')
                              (case location (res_head res') of Some l \<Rightarrow> l | None \<Rightarrow> []))
                           options w'' (capture_cookies (res_head res') ss')
                    else Some (Inr (resolve J res'), w'', capture_cookies (res_head res') ss')))"
proof -
  have a: "request J U net url options w ss =
       (if loc = [] then Some (Inr (resolve J res), w', capture_cookies (res_head res) ss)
        else request J U net (if prefix ''http'' loc then loc else baseURL ss @ loc) options w'
               (capture_cookies (res_head res) ss))"
  proof (cases "loc = []")
    case True
    with assms(5) have "\<not> redirects res" by (simp add: redirects_def)
    from request_final[where net = net and J = J and U = U and url = url, OF assms(1,2) this] True show ?thesis by simp
  next
    case False
    with assms(3-5) have "redirects res" by (simp add: redirects_def)
    from request_redirect[where net = net and J = J and U = U and url = url, OF assms(1,2) this assms(5)] False
    show ?thesis by (simp add: redirect_url_def capture_cookies_def split: option.splits)
  qed
  have b: "req_url (build_request ss' target options) = target \<and>
        req_method (build_request ss' target options) =
          (case opt_method options of None \<Rightarrow> ''GET'' | Some m \<Rightarrow> if m = [] then ''GET'' else m) \<and>
        req_body (build_request ss' target options) =
          (case opt_body options of None \<Rightarrow> None | Some b \<Rightarrow> if b = [] then None else Some b) \<and>
        (\<forall>k. k \<noteq> ''Cookie'' \<and> k \<noteq> ''X-CSRF-Token'' \<and> k \<noteq> ''Content-Length'' \<longrightarrow>
           map_of (req_headers (build_request ss' target options)) k =
             (case map_of (rev (opt_headers options)) k of
                Some v \<Rightarrow> Some v
              | None \<Rightarrow> map_of base_headers k))"
    for target ss'
    using request_header[of _ ss' target options]
    by (simp add: request_method request_body)
  have c: "request J U net target options w' ss' =
          (if \<not> U target then Some (Inl InvalidUrl, w', ss')
           else case net w' (build_request ss' target options) of
                  (Inl e, w'') \<Rightarrow> Some (Inl e, w'', ss')
                | (Inr res', w'') \<Rightarrow>
                    if redirects res'
                    then request J U net
                           (redirect_url (capture_cookies (res_head res') ss')
                              (case location (res_head res') of Some l \<Rightarrow> l | None \<Rightarrow> []))
                           options w'' (capture_cookies (res_head res') ss')
                    else Some (Inr (resolve J res'), w'', capture_cookies (res_head res') ss'))"
    for target ss'
    by (subst request.simps)
       (auto simp: redirects_def Let_def split: prod.splits sum.splits option.splits)
  from a b c show ?thesis by blast
qed


text \<open>What an example shows of the requests handed to the transport.\<close>

definition sent :: "wire_request \<Rightarrow> string \<times> string \<times> string option \<times> jsval option \<times> jsval option" where
  "sent q = (req_method q, req_url q, req_body q,
             map_of (req_headers q) ''Referer'', map_of (req_headers q) ''Content-Length'')"

theorem redirect_target_witness:
  "map_option (\<lambda>(out, log, ss). (map_sum id status out, map sent log))
     (request (json_table []) (url_table [''https://c.example/a/b'', ''https://c.example/foo''])
        (replay [redirect_to 302 ''/foo'', plain 200 ''done''])
        ''https://c.example/a/b'' post_options [] (fresh_session ''https://c.example''))
   = Some (Inr 200,
       [(''POST'', ''https://c.example/a/b'', Some ''email=a&password=b'',
         Some (JStr ''https://c.example/login''), Some (JNum ''18'')),
        (''POST'', ''https://c.example/foo'', Some ''email=a&password=b'',
         Some (JStr ''https://c.example/login''), Some (JNum ''18''))])"
proof -
  let ?U = "url_table [''https://c.example/a/b'', ''https://c.example/foo'']"
  let ?net = "replay [redirect_to 302 ''/foo'', plain 200 ''done'']"
  let ?s = "fresh_session ''https://c.example''"
  let ?q = "build_request ?s ''https://c.example/a/b'' post_options"
  have u: "?U ''https://c.example/a/b''" by (simp add: url_table_def)
  have n: "?net [] ?q = (Inr (redirect_to 302 ''/foo''), [?q])" by (simp add: replay_def)
  have st: "300 \<le> statusCode (redirect_to 302 ''/foo'')" "statusCode (redirect_to 302 ''/foo'') < 400"
    by (simp_all add: redirect_to_def)
  have l: "location (res_head (redirect_to 302 ''/foo'')) = Some ''/foo''"
    by (simp add: redirect_to_def)
  have step: "request (json_table []) ?U ?net ''https://c.example/a/b'' post_options [] ?s =
      request (json_table []) ?U ?net (baseURL ?s @ ''/foo'') post_options [?q]
        (capture_cookies (res_head (redirect_to 302 ''/foo'')) ?s)"
    using redirect_target[where J = "json_table []" and U = ?U and net = ?net
        and url = "''https://c.example/a/b''" and options = post_options and w = "[]" and ss = ?s,
        OF u n st l]
    by simp
  show ?thesis unfolding step by code_simp
qed


subsection \<open>Cookies\<close>

text \<open>
  The cookie jar as claim C2 words it: a mapping from cookie name to the pair most
  recently observed for that name, folded over every Set-Cookie header of every response;
  the header is the \<open>; \<close>-join of the pairs.
\<close>

definition cookie_name :: "string \<Rightarrow> string" where
  "cookie_name c = takeWhile (\<lambda>x. x \<noteq> CHR ''='') (name_value c)"

fun jar_put :: "string \<Rightarrow> string list \<Rightarrow> string list" where
  "jar_put c [] = [name_value c]"
| "jar_put c (p # ps) =
     (if cookie_name p = cookie_name c then name_value c # ps else p # jar_put c ps)"

definition claimed_cookie_header :: "string list list \<Rightarrow> string" where
  "claimed_cookie_header observed = join ''; '' (fold (\<lambda>cs jar. fold jar_put cs jar) observed [])"

text \<open>A caller that issues GET requests for a list of URLs, one after the other.\<close>

fun requests ::
  "(string \<Rightarrow> jsval option) \<Rightarrow> (string \<Rightarrow> bool) \<Rightarrow>
   ('w \<Rightarrow> wire_request \<Rightarrow> (error + response) \<times> 'w) \<Rightarrow>
   string list \<Rightarrow> 'w \<Rightarrow> session \<Rightarrow> ('w \<times> session) option"
where
  "requests J U net [] w ss = Some (w, ss)"
| "requests J U net (url # urls) w ss =
     (case request J U net url no_options w ss of
        None \<Rightarrow> None
      | Some (out, w', ss') \<Rightarrow> requests J U net urls w' ss')"

definition cookie_headers :: "wire_request list \<Rightarrow> jsval option list" where
  "cookie_headers log = map (\<lambda>q. map_of (req_headers q) ''Cookie'') log"

text \<open>
  Claim C2 fails as stated. Three requests in a row; the first response sets \<open>a=1\<close>, the
  second sets \<open>b=2\<close>. The third request carries \<open>Cookie: b=2\<close>: the pair \<open>a=1\<close>, the
  most recent one for the name \<open>a\<close>, is gone, where the claim has \<open>a=1; b=2\<close>.
\<close>

theorem cookie_jar_counterexample:
  "map_option (cookie_headers \<circ> fst)
     (requests (json_table [])
        (url_table [''https://c.example/1'', ''https://c.example/2'', ''https://c.example/3''])
        (replay [with_cookies [''a=1; Path=/''] (plain 200 ''one''),
                 with_cookies [''b=2; Path=/''] (plain 200 ''two''),
                 plain 200 ''three''])
        [''https://c.example/1'', ''https://c.example/2'', ''https://c.example/3'']
        [] (fresh_session ''https://c.example''))
   = Some [None, Some (JStr ''a=1''), Some (JStr ''b=2'')] \<and>
   claimed_cookie_header [[''a=1; Path=/''], [''b=2; Path=/'']] = ''a=1; b=2''"
  by code_simp

text \<open>The Set-Cookie headers of the last response, of a sequence, that had any.\<close>

definition last_set_cookie :: "res_headers list \<Rightarrow> string list option" where
  "last_set_cookie hs =
     fold (\<lambda>h found. case set_cookie h of None \<Rightarrow> found | Some cs \<Rightarrow> Some cs) hs None"

lemma last_set_cookie_snoc:
  "last_set_cookie (hs @ [h]) =
     (case set_cookie h of None \<Rightarrow> last_set_cookie hs | Some cs \<Rightarrow> Some cs)"
  by (cases "set_cookie h") (simp_all add: last_set_cookie_def)

lemma fold_capture_cookies:
  "fold capture_cookies hs ss0 =
     ss0\<lparr>cookies := (case last_set_cookie hs of
                        None \<Rightarrow> cookies ss0
                      | Some cs \<Rightarrow> join ''; '' (map name_value cs))\<rparr>"
proof (induction hs rule: rev_induct)
  case Nil
  show ?case by (simp add: last_set_cookie_def)
next
  case (snoc h hs)
  have "fold capture_cookies (hs @ [h]) ss0 = capture_cookies h (fold capture_cookies hs ss0)"
    by simp
  also have "\<dots> = capture_cookies h
      (ss0\<lparr>cookies := (case last_set_cookie hs of
                        None \<Rightarrow> cookies ss0
                      | Some cs \<Rightarrow> join ''; '' (map name_value cs))\<rparr>)"
    by (simp only: snoc)
  also have "\<dots> = ss0\<lparr>cookies := (case last_set_cookie (hs @ [h]) of
                        None \<Rightarrow> cookies ss0
                      | Some cs \<Rightarrow> join ''; '' (map name_value cs))\<rparr>"
    by (cases "set_cookie h") (simp_all add: capture_cookies_def last_set_cookie_snoc)
  finally show ?case .
qed

text \<open>
  Claim C2, amended. First conjunct: a response bearing Set-Cookie headers replaces the
  session's cookie text by the \<open>; \<close>-join of the \<open>name=value\<close> portions of its own
  headers, and a response without them leaves it alone, nothing else of the session
  changing; so after any sequence of responses the text is the join for the last response
  that bore Set-Cookie, or what the session held before when none did. Second conjunct: a
  request built from a session carries that text as its \<open>Cookie\<close> header when the text is
  not empty; when it is empty the client sets no \<open>Cookie\<close> header, and the request has
  the one the caller's options gave, if any. Third conjunct: \<open>request\<close> takes the cookies
  of a response before it looks at the status, so the request that follows a redirect is
  built from the session that has them.
\<close>

theorem cookies_replaced_by_latest:
  "fold capture_cookies hs ss0 =
     ss0\<lparr>cookies := (case last_set_cookie hs of
                        None \<Rightarrow> cookies ss0
                      | Some cs \<Rightarrow> join ''; '' (map name_value cs))\<rparr> \<and>
   map_of (req_headers (build_request ss url options)) ''Cookie'' =
     (if cookies ss \<noteq> [] then Some (JStr (cookies ss))
      else map_of (rev (opt_headers options)) ''Cookie'') \<and>
   (U url \<and> net w (build_request ss url options) = (Inr res, w') \<longrightarrow>
      request J U net url options w ss =
        (if redirects res
         then request J U net
                (redirect_url (capture_cookies (res_head res) ss)
                   (case location (res_head res) of Some l \<Rightarrow> l | None \<Rightarrow> []))
                options w' (capture_cookies (res_head res) ss)
         else Some (Inr (resolve J res), w', capture_cookies (res_head res) ss)))"
proof (intro conjI impI)
  show "fold capture_cookies hs ss0 =
     ss0\<lparr>cookies := (case last_set_cookie hs of
                        None \<Rightarrow> cookies ss0
                      | Some cs \<Rightarrow> join ''; '' (map name_value cs))\<rparr>"
    by (rule fold_capture_cookies)
  show "map_of (req_headers (build_request ss url options)) ''Cookie'' =
     (if cookies ss \<noteq> [] then Some (JStr (cookies ss))
      else map_of (rev (opt_headers options)) ''Cookie'')"
    by (rule request_cookie_header)
  assume a: "U url \<and> net w (build_request ss url options) = (Inr res, w')"
  show "request J U net url options w ss =
        (if redirects res
         then request J U net
                (redirect_url (capture_cookies (res_head res) ss)
                   (case location (res_head res) of Some l \<Rightarrow> l | None \<Rightarrow> []))
                options w' (capture_cookies (res_head res) ss)
         else Some (Inr (resolve J res), w', capture_cookies (res_head res) ss))"
  proof (cases "redirects res")
    case True
    then obtain loc where l: "location (res_head res) = Some loc"
      by (auto simp: redirects_def split: option.splits)
    from a request_redirect[where net = net and J = J and U = U and url = url, OF _ _ True l]
    show ?thesis using True l by simp
  next
    case False
    from a request_final[where net = net and J = J and U = U and url = url, OF _ _ False]
    show ?thesis using False by simp
  qed
qed

definition bare :: "string list option \<Rightarrow> res_headers" where
  "bare sc = \<lparr>set_cookie = sc, location = None, other_headers = []\<rparr>"

theorem cookies_replaced_by_latest_witness:
  "cookies (fold capture_cookies
      [bare (Some [''a=1; Path=/'', ''s=xyz; HttpOnly'']), bare None, bare (Some [''b=2'']),
       bare None]
      (fresh_session ''https://c.example'')) = ''b=2'' \<and>
   cookies (fold capture_cookies [bare None, bare None]
      ((fresh_session ''https://c.example'')\<lparr>cookies := ''k=v''\<rparr>)) = ''k=v'' \<and>
   map_option (cookie_headers \<circ> fst)
     (requests (json_table [])
        (url_table [''https://c.example/1'', ''https://c.example/2'', ''https://c.example/3'',
                    ''https://c.example/home''])
        (replay [with_cookies [''a=1; Path=/'', ''s=xyz; HttpOnly''] (redirect_to 302 ''/home''),
                 plain 200 ''home'',
                 with_cookies ['';''] (plain 200 ''two''),
                 plain 200 ''three''])
        [''https://c.example/1'', ''https://c.example/2'', ''https://c.example/3'']
        [] (fresh_session ''https://c.example''))
   = Some [None, Some (JStr ''a=1; s=xyz''), Some (JStr ''a=1; s=xyz''), None]"
proof -
  have e: "map_option (cookie_headers \<circ> fst)
     (requests (json_table [])
        (url_table [''https://c.example/1'', ''https://c.example/2'', ''https://c.example/3'',
                    ''https://c.example/home''])
        (replay [with_cookies [''a=1; Path=/'', ''s=xyz; HttpOnly''] (redirect_to 302 ''/home''),
                 plain 200 ''home'',
                 with_cookies ['';''] (plain 200 ''two''),
                 plain 200 ''three''])
        [''https://c.example/1'', ''https://c.example/2'', ''https://c.example/3'']
        [] (fresh_session ''https://c.example''))
   = Some [None, Some (JStr ''a=1; s=xyz''), Some (JStr ''a=1; s=xyz''), None]"
    by code_simp
  have l: "last_set_cookie [bare (Some [''a=1; Path=/'', ''s=xyz; HttpOnly'']), bare None,
             bare (Some [''b=2'']), bare None] = Some [''b=2'']"
    "last_set_cookie [bare None, bare None] = None"
    by (simp_all add: last_set_cookie_def bare_def)
  from cookies_replaced_by_latest[where hs = "[bare (Some [''a=1; Path=/'', ''s=xyz; HttpOnly'']),
         bare None, bare (Some [''b=2'']), bare None]"
       and ?ss0.0 = "fresh_session ''https://c.example''", THEN conjunct1]
     cookies_replaced_by_latest[where hs = "[bare None, bare None]"
       and ?ss0.0 = "(fresh_session ''https://c.example'')\<lparr>cookies := ''k=v''\<rparr>", THEN conjunct1]
  show ?thesis unfolding l using e by (simp add: name_value_def)
qed


section \<open>Facts about the matcher\<close>

lemma bt_Rep_unfold:
  "bt (Rep g m mx r) (c, s) =
     (if mx = Some 0 then [(c, s)]
      else if 0 < m then
        concat (map (\<lambda>(c', s'). bt (Rep g (m - 1) (dec mx) r) (c', s')) (bt r (c, s)))
      else
        let again = concat (map (\<lambda>(c', s'). if length s' < length s
                                   then bt (Rep g 0 (dec mx) r) (c', s') else [])
                                (bt r (c, s)))
        in if g then again @ [(c, s)] else (c, s) # again)"
  by (rule bt.simps(6))

lemma bt_lit: "bt (lit w) (c, s) = (if prefix w s then [(c, drop (length w) s)] else [])"
proof (induction w arbitrary: s)
  case Nil
  show ?case by (simp add: lit_def)
next
  case (Cons x w)
  have l: "lit (x # w) = Seq (Atom (\<lambda>y. y = x)) (lit w)" by (simp add: lit_def)
  show ?case
  proof (cases s)
    case Nil
    then show ?thesis by (simp add: l)
  next
    case (Cons y ys)
    then show ?thesis using Cons.IH[of ys] by (simp add: l)
  qed
qed

text \<open>How far a quantified character class can reach.\<close>

definition reach :: "(char \<Rightarrow> bool) \<Rightarrow> nat option \<Rightarrow> string \<Rightarrow> nat" where
  "reach p mx s = (case mx of None \<Rightarrow> length (takeWhile p s)
                   | Some n \<Rightarrow> min n (length (takeWhile p s)))"

lemma bt_rep_atom:
  "bt (Rep g m mx (Atom p)) (c, s) =
     map (\<lambda>k. (c, drop k s))
       (if g then rev [m ..< Suc (reach p mx s)] else [m ..< Suc (reach p mx s)])"
  if "case mx of None \<Rightarrow> True | Some n \<Rightarrow> m \<le> n"
  using that
proof (induction s arbitrary: m mx)
  case Nil
  then show ?case
    by (subst bt_Rep_unfold) (auto simp: reach_def Let_def split: option.splits)
next
  case (Cons x xs)
  show ?case
  proof (cases "mx = Some 0")
    case True
    with Cons.prems show ?thesis by (subst bt_Rep_unfold) (simp add: reach_def)
  next
    case nz: False
    show ?thesis
    proof (cases "p x")
      case False
      with nz show ?thesis
        by (subst bt_Rep_unfold) (auto simp: reach_def Let_def split: option.splits)
    next
      case True
      have ok: "case dec mx of None \<Rightarrow> True | Some n \<Rightarrow> m - 1 \<le> n"
        using Cons.prems by (cases mx) auto
      have ok0: "case dec mx of None \<Rightarrow> True | Some n \<Rightarrow> 0 \<le> n"
        by (cases mx) auto
      have r: "reach p mx (x # xs) = Suc (reach p (dec mx) xs)"
        using True nz by (cases mx) (auto simp: reach_def)
      have sh: "map (\<lambda>k. (c, drop k (x # xs))) (map Suc ks) = map (\<lambda>k. (c, drop k xs)) ks" for ks
        by simp
      show ?thesis
      proof (cases "0 < m")
        case mpos: True
        then have m: "[m ..< Suc (Suc (reach p (dec mx) xs))] = map Suc [m - 1 ..< Suc (reach p (dec mx) xs)]"
          by (cases m) (simp_all add: map_Suc_upt del: upt_Suc)
        show ?thesis
          using nz True mpos Cons.IH[OF ok]
          by (subst bt_Rep_unfold) (simp add: r m rev_map del: upt_Suc)
      next
        case False
        then have m0: "m = 0" by simp
        have u: "[0 ..< Suc (Suc n)] = 0 # map Suc [0 ..< Suc n]" for n
          by (simp add: map_Suc_upt upt_conv_Cons del: upt_Suc)
        show ?thesis
          using nz True Cons.IH[OF ok0] unfolding m0
          by (subst bt_Rep_unfold) (simp add: r u rev_map Let_def del: upt_Suc)
      qed
    qed
  qed
qed


text \<open>A regular expression that cannot match the empty text.\<close>

fun consuming :: "regex \<Rightarrow> bool" where
  "consuming (Atom p) = True"
| "consuming Eps = False"
| "consuming (Seq r1 r2) = (consuming r1 \<or> consuming r2)"
| "consuming (Alt r1 r2) = (consuming r1 \<and> consuming r2)"
| "consuming (Rep g m mx r) = (0 < m \<and> mx \<noteq> Some 0 \<and> consuming r)"
| "consuming (Group i r) = consuming r"

lemma bt_length: "(c', s') \<in> set (bt r (c, s)) \<Longrightarrow> length s' \<le> length s"
  by (drule bt_suffix) (rule suffix_length_le)

lemma bt_consuming:
  "consuming r \<Longrightarrow> (c', s') \<in> set (bt r (c, s)) \<Longrightarrow> length s' < length s"
proof (induction r arbitrary: c s c' s')
  case (Atom p)
  then show ?case by (auto split: list.splits if_splits)
next
  case Eps
  then show ?case by simp
next
  case (Seq r1 r2)
  from Seq.prems(2) obtain c1 s1 where a: "(c1, s1) \<in> set (bt r1 (c, s))"
    and b: "(c', s') \<in> set (bt r2 (c1, s1))" by auto
  from Seq.prems(1) have "consuming r1 \<or> consuming r2" by simp
  then show ?case
  proof
    assume "consuming r1"
    from Seq.IH(1)[OF this a] bt_length[OF b] show ?thesis by simp
  next
    assume "consuming r2"
    from Seq.IH(2)[OF this b] bt_length[OF a] show ?thesis by simp
  qed
next
  case (Alt r1 r2)
  then show ?case by auto
next
  case (Rep g m mx r)
  from Rep.prems(1) have m: "0 < m" and mx: "mx \<noteq> Some 0" and cr: "consuming r" by simp_all
  from Rep.prems(2) m mx obtain c1 s1 where a: "(c1, s1) \<in> set (bt r (c, s))"
    and b: "(c', s') \<in> set (bt (Rep g (m - 1) (dec mx) r) (c1, s1))"
    by (subst (asm) bt_Rep_unfold) auto
  from Rep.IH[OF cr a] bt_length[OF b] show ?case by simp
next
  case (Group i r)
  then show ?case by auto
qed

lemma consuming_lit: "w \<noteq> [] \<Longrightarrow> consuming (lit w)"
  by (cases w) (simp_all add: lit_def)

lemma consuming_seqs: "consuming r \<Longrightarrow> consuming (seqs (r # rs))"
  by (cases rs) simp_all

lemma first_match_consuming:
  assumes "consuming r" and "first_match r s = Some m"
  shows "matched m \<noteq> []"
  using assms(2)
proof (induction s arbitrary: m)
  case Nil
  show ?case
  proof (cases "bt r ([], [])")
    case empty: Nil
    with Nil.prems show ?thesis by (simp add: first_match.simps[of r "[]"])
  next
    case (Cons a rs)
    then have "(fst a, snd a) \<in> set (bt r ([], []))" by simp
    from bt_consuming[OF assms(1) this] show ?thesis by simp
  qed
next
  case (Cons x xs)
  show ?case
  proof (cases "bt r ([], x # xs)")
    case empty: Nil
    with Cons.prems obtain m' where m': "first_match r xs = Some m'"
      and m: "m = m'\<lparr>pre_text := x # pre_text m'\<rparr>"
      by (auto simp: first_match.simps[of r "x # xs"])
    from Cons.IH[OF m'] m show ?thesis by simp
  next
    case hit: (Cons a rs)
    then have "(fst a, snd a) \<in> set (bt r ([], x # xs))" by simp
    from bt_consuming[OF assms(1) this] have "length (snd a) < length (x # xs)" .
    moreover from hit Cons.prems
    have "matched m = take (length (x # xs) - length (snd a)) (x # xs)"
      by (cases a) (auto simp: first_match.simps[of r "x # xs"])
    ultimately show ?thesis by (cases "length (x # xs) - length (snd a)") auto
  qed
qed

text \<open>The match found is the leftmost: the matcher fails at every earlier position.\<close>

lemma first_match_leftmost:
  "first_match r s = Some m \<Longrightarrow> k < length (pre_text m) \<Longrightarrow> bt r ([], drop k s) = []"
proof (induction s arbitrary: m k)
  case Nil
  then show ?case
    by (cases "bt r ([], [])") (auto simp: first_match.simps[of r "[]"])
next
  case (Cons x xs)
  show ?case
  proof (cases "bt r ([], x # xs)")
    case empty: Nil
    with Cons.prems(1) obtain m' where m': "first_match r xs = Some m'"
      and m: "m = m'\<lparr>pre_text := x # pre_text m'\<rparr>"
      by (auto simp: first_match.simps[of r "x # xs"])
    show ?thesis
    proof (cases k)
      case 0
      with empty show ?thesis by simp
    next
      case (Suc j)
      with Cons.prems(2) m have "j < length (pre_text m')" by simp
      from Cons.IH[OF m' this] Suc show ?thesis by simp
    qed
  next
    case hit: (Cons a rs)
    with Cons.prems show ?thesis
      by (cases a) (auto simp: first_match.simps[of r "x # xs"])
  qed
qed


lemma first_match_None: "first_match r s = None \<Longrightarrow> bt r ([], drop k s) = []"
proof (induction s arbitrary: k)
  case Nil
  then show ?case by (cases "bt r ([], [])") (auto simp: first_match.simps[of r "[]"])
next
  case (Cons x xs)
  then have e: "bt r ([], x # xs) = []" and n: "first_match r xs = None"
    by (cases "bt r ([], x # xs)"; auto simp: first_match.simps[of r "x # xs"])+
  show ?case
  proof (cases k)
    case 0
    with e show ?thesis by simp
  next
    case (Suc j)
    with Cons.IH[OF n] show ?thesis by simp
  qed
qed

lemma first_match_NoneI: "(\<And>k. bt r ([], drop k s) = []) \<Longrightarrow> first_match r s = None"
proof (induction s)
  case Nil
  from Nil[of 0] show ?case by (simp add: first_match.simps[of r "[]"])
next
  case (Cons x xs)
  have "first_match r xs = None"
  proof (rule Cons.IH)
    fix k
    from Cons.prems[of "Suc k"] show "bt r ([], drop k xs) = []" by simp
  qed
  with Cons.prems[of 0] show ?case by (simp add: first_match.simps[of r "x # xs"])
qed


section \<open>Properties of the discovery\<close>

text \<open>The first identifier after a marker, read off the text without a matcher: at the
  leftmost place where the marker is followed by a lowercase letter or a digit, the longest
  run of such characters.\<close>

fun id_after :: "string \<Rightarrow> string \<Rightarrow> string option" where
  "id_after marker [] = None"
| "id_after marker (x # xs) =
     (if prefix marker (x # xs) \<and>
         takeWhile lower_alnum (drop (length marker) (x # xs)) \<noteq> []
      then Some (takeWhile lower_alnum (drop (length marker) (x # xs)))
      else id_after marker xs)"

lemma reach_le: "reach p mx t \<le> length t"
proof (cases mx)
  case None
  then show ?thesis using length_takeWhile_le[of p t] by (simp add: reach_def)
next
  case (Some n)
  then show ?thesis using length_takeWhile_le[of p t] by (simp add: reach_def min_le_iff_disj)
qed

lemma bt_group_atoms:
  assumes "case mx of None \<Rightarrow> True | Some n \<Rightarrow> m \<le> n"
  shows "bt (Group i (Rep g m mx (Atom p))) (c, t) =
     map (\<lambda>k. ((i, take k t) # c, drop k t))
       (if g then rev [m ..< Suc (reach p mx t)] else [m ..< Suc (reach p mx t)])"
proof -
  have "((i, take (length t - length (drop k t)) t) # c, drop k t) = ((i, take k t) # c, drop k t)"
    if "k < Suc (reach p mx t)" for k
    using that reach_le[of p mx t] by simp
  then show ?thesis
    by (simp add: bt_rep_atom[OF assms] del: upt_Suc length_drop)
qed

lemma bt_marker_id:
  "bt (seqs [lit marker, Group i (plus p)]) (c, s) =
     (if prefix marker s
      then map (\<lambda>k. ((i, take k (drop (length marker) s)) # c, drop k (drop (length marker) s)))
             (rev [1 ..< Suc (length (takeWhile p (drop (length marker) s)))])
      else [])"
proof -
  have g: "bt (Group i (plus p)) (c, t) =
      map (\<lambda>k. ((i, take k t) # c, drop k t)) (rev [1 ..< Suc (length (takeWhile p t))])" for t
    unfolding plus_def by (subst bt_group_atoms) (simp_all add: reach_def)
  have "bt (seqs [lit marker, Group i (plus p)]) (c, s) =
      concat (map (bt (Group i (plus p))) (bt (lit marker) (c, s)))"
    by simp
  also have "\<dots> = (if prefix marker s then bt (Group i (plus p)) (c, drop (length marker) s) else [])"
    by (simp only: bt_lit) simp
  finally show ?thesis unfolding g .
qed

lemma grp_pre_text [simp]: "grp (m\<lparr>pre_text := t\<rparr>) i = grp m i"
  by (simp add: grp_def)

lemma first_match_marker_id:
  assumes "0 < i"
  shows "map_option (\<lambda>m. grp m i) (first_match (seqs [lit marker, Group i (plus lower_alnum)]) s) =
   map_option JStr (id_after marker s)"
proof (induction s)
  case Nil
  have "bt (seqs [lit marker, Group i (plus lower_alnum)]) ([], []) = []"
    unfolding bt_marker_id by simp
  then show ?case
    by (subst first_match.simps) (simp del: seqs.simps)
next
  case (Cons x xs)
  let ?r = "seqs [lit marker, Group i (plus lower_alnum)]"
  let ?t = "drop (length marker) (x # xs)"
  let ?n = "length (takeWhile lower_alnum ?t)"
  show ?case
  proof (cases "prefix marker (x # xs) \<and> takeWhile lower_alnum ?t \<noteq> []")
    case True
    then have n: "0 < ?n" by (cases "takeWhile lower_alnum ?t") simp_all
    then have "rev [1 ..< Suc ?n] = ?n # rev [1 ..< ?n]" by (simp add: Suc_le_eq)
    with True n have "\<exists>rs. bt ?r ([], x # xs) = ([(i, take ?n ?t)], drop ?n ?t) # rs"
      unfolding bt_marker_id by (simp del: upt_Suc)
    then obtain rs where b: "bt ?r ([], x # xs) = ([(i, take ?n ?t)], drop ?n ?t) # rs" ..
    have "take ?n ?t = takeWhile lower_alnum ?t"
      by (metis takeWhile_eq_take)
    with True b assms show ?thesis
      by (subst first_match.simps) (simp add: grp_def del: seqs.simps)
  next
    case False
    then have "bt ?r ([], x # xs) = []"
      unfolding bt_marker_id by auto
    with False Cons.IH show ?thesis
      by (subst first_match.simps) (auto simp: option.map_comp comp_def simp del: seqs.simps)
  qed
qed


lemma collect_prefix: "collect r s ids = Some ids' \<Longrightarrow> prefix ids ids'"
proof (induction r s ids arbitrary: ids' rule: collect.induct)
  case (1 r s ids)
  show ?case
  proof (cases "first_match r s")
    case None
    with "1.prems" show ?thesis by (simp add: collect.simps[of r s ids])
  next
    case (Some m)
    with "1.prems" have ne: "matched m \<noteq> []"
      and c: "collect r (post_text m) (if grp m 1 \<in> set ids then ids else ids @ [grp m 1]) = Some ids'"
      by (auto simp: collect.simps[of r s ids] split: if_splits)
    from "1.IH"[OF Some _ c] ne
    have "prefix (if grp m 1 \<in> set ids then ids else ids @ [grp m 1]) ids'" by simp
    then show ?thesis by (auto split: if_splits dest: append_prefixD)
  qed
qed

lemma collect_total:
  "consuming r \<Longrightarrow> \<exists>ids'. collect r s ids = Some ids'"
proof (induction r s ids rule: collect.induct)
  case (1 r s ids)
  show ?case
  proof (cases "first_match r s")
    case None
    then show ?thesis by (simp add: collect.simps[of r s ids])
  next
    case (Some m)
    from first_match_consuming[OF "1.prems" Some] have ne: "matched m \<noteq> []" .
    from "1.IH"[OF Some _ "1.prems"] ne Some show ?thesis
      by (simp add: collect.simps[of r s ids])
  qed
qed

lemma collect_first:
  assumes "consuming r"
  shows "case first_match r s of
           None \<Rightarrow> collect r s [] = Some []
         | Some m \<Rightarrow> (\<exists>ps. collect r s [] = Some (grp m 1 # ps))"
proof (cases "first_match r s")
  case None
  then show ?thesis by (simp add: collect.simps[of r s "[]"])
next
  case (Some m)
  from first_match_consuming[OF assms Some] have ne: "matched m \<noteq> []" .
  from collect_total[OF assms] obtain ids' where
    c: "collect r (post_text m) [grp m 1] = Some ids'" by blast
  from collect_prefix[OF c] obtain ps where "ids' = grp m 1 # ps" by (auto simp: prefix_def)
  with c Some ne show ?thesis
    by (simp add: collect.simps[of r s "[]"])
qed

lemma exec_ids_marker:
  assumes "to_String b = Inr page"
  shows "case id_after marker page of
           None \<Rightarrow> exec_ids (seqs [lit marker, Group 1 (plus lower_alnum)]) b = Some (Inr [])
         | Some p \<Rightarrow> (\<exists>ps. exec_ids (seqs [lit marker, Group 1 (plus lower_alnum)]) b =
                          Some (Inr (JStr p # ps)))"
proof -
  let ?r = "seqs [lit marker, Group 1 (plus lower_alnum)]"
  have c: "consuming ?r" by (simp add: plus_def)
  have f: "map_option (\<lambda>m. grp m 1) (first_match ?r page) = map_option JStr (id_after marker page)"
    by (rule first_match_marker_id) simp
  show ?thesis
  proof (cases "first_match ?r page")
    case None
    with f collect_first[OF c, of page] assms show ?thesis
      by (simp add: exec_ids_def del: seqs.simps)
  next
    case (Some m)
    with f have "Some (grp m 1) = map_option JStr (id_after marker page)" by simp
    then obtain p where p: "id_after marker page = Some p" "grp m 1 = JStr p"
      by (cases "id_after marker page") auto
    from Some collect_first[OF c, of page] obtain ps where
      "collect ?r page [] = Some (grp m 1 # ps)" by auto
    with p assms show ?thesis by (simp add: exec_ids_def del: seqs.simps)
  qed
qed


lemma request_keeps:
  assumes "request J U net url options w ss = Some (out, w', ss')"
  shows "baseURL ss' = baseURL ss" "projectId ss' = projectId ss"
    "environmentId ss' = environmentId ss" "applicationId ss' = applicationId ss"
    "csrfToken ss' = csrfToken ss"
proof -
  from request_session[OF assms] have "ss' = ss\<lparr>cookies := cookies ss'\<rparr>" by simp
  then show "baseURL ss' = baseURL ss" "projectId ss' = projectId ss"
    "environmentId ss' = environmentId ss" "applicationId ss' = applicationId ss"
    "csrfToken ss' = csrfToken ss"
    by (metis session.select_convs(1,3,4,5,6) session.surjective session.update_convs(2))+
qed

text \<open>What an example shows of a run of \<open>discoverResources\<close>: the value returned, the URLs
  requested, and the three identifiers the session holds afterwards.\<close>

definition discovered ::
  "(bool \<times> wire_request list \<times> session) option \<Rightarrow>
   (bool \<times> string list \<times> jsval \<times> jsval \<times> jsval) option"
where
  "discovered = map_option (\<lambda>(ok, log, ss).
     (ok, map req_url log, projectId ss, environmentId ss, applicationId ss))"

text \<open>
  Claim C5 fails as stated. The dashboard lists two projects and the page of the first one
  has no environment: \<open>discoverResources\<close> returns false, but it has produced a partial
  result, for the session now holds the project it found.
\<close>

theorem discover_counterexample:
  "discovered (discoverResources (json_table [])
      (url_table [''https://c.example/dashboard'', ''https://c.example/project/p1''])
      (replay [plain 200 ''<a href=/project/p1>One</a> <a href=/project/p2>Two</a>'',
               plain 200 ''<h1>One</h1> <a href=/application/a7>app</a>''])
      [] (fresh_session ''https://c.example''))
   = Some (False, [''https://c.example/dashboard'', ''https://c.example/project/p1''],
           JStr ''p1'', JNull, JNull)"
  by code_simp

text \<open>
  Claim C5, amended. The page scanned for the project is the dashboard, or the root page
  when the dashboard's text is empty or includes \<open>404\<close> (last conjunct). On the text of
  that page the project is the first identifier after \<open>/project/\<close> in page order; when
  there is none the result is false and nothing more is requested. Otherwise the project is
  stored in the session and its page is requested; when that fails the result is false. On
  the text of the project's page the environment is the first identifier after
  \<open>/environment/\<close> and the application the first one after \<open>/application/\<close>; the result
  is false as soon as one is missing, and true with all three stored otherwise. A false
  result leaves in the session the identifiers of the levels that were found.
\<close>

theorem discover_first_matches:
  assumes "fetch_dashboard J U net w ss = Some (Inr dashboardRes, w2, s2)"
    and "to_String (body dashboardRes) = Inr dash"
  shows
   "(id_after ''/project/'' dash = None \<longrightarrow>
       discoverResources J U net w ss = Some (False, w2, s2)) \<and>
    (\<forall>p e w4 s4.
       id_after ''/project/'' dash = Some p \<and>
       request J U net (baseURL s2 @ ''/project/'' @ p) no_options w2 (s2\<lparr>projectId := JStr p\<rparr>)
         = Some (Inl e, w4, s4) \<longrightarrow>
       discoverResources J U net w ss = Some (False, w4, s4) \<and> projectId s4 = JStr p) \<and>
    (\<forall>p projectRes proj w4 s4.
       id_after ''/project/'' dash = Some p \<and>
       request J U net (baseURL s2 @ ''/project/'' @ p) no_options w2 (s2\<lparr>projectId := JStr p\<rparr>)
         = Some (Inr projectRes, w4, s4) \<and>
       to_String (body projectRes) = Inr proj \<longrightarrow>
       projectId s4 = JStr p \<and>
       discoverResources J U net w ss =
         (case id_after ''/environment/'' proj of
            None \<Rightarrow> Some (False, w4, s4)
          | Some env \<Rightarrow>
             (case id_after ''/application/'' proj of
                None \<Rightarrow> Some (False, w4, s4\<lparr>environmentId := JStr env\<rparr>)
              | Some app \<Rightarrow>
                  Some (True, w4, s4\<lparr>environmentId := JStr env, applicationId := JStr app\<rparr>)))) \<and>
    (\<forall>first w1 s1 t.
       request J U net (baseURL ss @ ''/dashboard'') no_options w ss = Some (Inr first, w1, s1) \<and>
       body first = JStr t \<longrightarrow>
       fetch_dashboard J U net w ss =
         (if t = [] \<or> sublist ''404'' t
          then request J U net (baseURL ss @ ''/'') no_options w1 s1
          else Some (Inr first, w1, s1)))"
proof -
  note [simp del] = seqs.simps
  have a: "discoverResources J U net w ss = Some (False, w2, s2)"
    if "id_after ''/project/'' dash = None"
    using that exec_ids_marker[OF assms(2), of "''/project/''"] assms(1)
    by (simp add: discoverResources_def re_project_def)
  have p: "\<exists>ps. exec_ids re_project (body dashboardRes) = Some (Inr (JStr p # ps))"
    if "id_after ''/project/'' dash = Some p" for p
    using that exec_ids_marker[OF assms(2), of "''/project/''"] by (simp add: re_project_def)
  have b: "discoverResources J U net w ss = Some (False, w4, s4) \<and> projectId s4 = JStr p"
    if "id_after ''/project/'' dash = Some p"
      and "request J U net (baseURL s2 @ ''/project/'' @ p) no_options w2 (s2\<lparr>projectId := JStr p\<rparr>)
         = Some (Inl e, w4, s4)" for p e w4 s4
    using p[OF that(1)] that(2) assms(1) request_keeps(2)[OF that(2)]
    by (auto simp: discoverResources_def)
  have c: "projectId s4 = JStr p \<and>
       discoverResources J U net w ss =
         (case id_after ''/environment/'' proj of
            None \<Rightarrow> Some (False, w4, s4)
          | Some env \<Rightarrow>
             (case id_after ''/application/'' proj of
                None \<Rightarrow> Some (False, w4, s4\<lparr>environmentId := JStr env\<rparr>)
              | Some app \<Rightarrow>
                  Some (True, w4, s4\<lparr>environmentId := JStr env, applicationId := JStr app\<rparr>)))"
    if "id_after ''/project/'' dash = Some p"
      and r: "request J U net (baseURL s2 @ ''/project/'' @ p) no_options w2 (s2\<lparr>projectId := JStr p\<rparr>)
         = Some (Inr projectRes, w4, s4)"
      and t: "to_String (body projectRes) = Inr proj" for p projectRes proj w4 s4
  proof -
    from p[OF that(1)] obtain ps where
      ps: "exec_ids re_project (body dashboardRes) = Some (Inr (JStr p # ps))" ..
    have head: "discoverResources J U net w ss =
        (case exec_ids re_environment (body projectRes) of
           None \<Rightarrow> None
         | Some (Inl e) \<Rightarrow> Some (False, w4, s4)
         | Some (Inr []) \<Rightarrow> Some (False, w4, s4)
         | Some (Inr (e # es)) \<Rightarrow>
             (case exec_ids re_application (body projectRes) of
                None \<Rightarrow> None
              | Some (Inl e') \<Rightarrow> Some (False, w4, s4\<lparr>environmentId := e\<rparr>)
              | Some (Inr []) \<Rightarrow> Some (False, w4, s4\<lparr>environmentId := e\<rparr>)
              | Some (Inr (a # as)) \<Rightarrow>
                  Some (True, w4, s4\<lparr>environmentId := e, applicationId := a\<rparr>)))"
      using assms(1) ps r by (simp add: discoverResources_def Let_def split: option.splits sum.splits list.splits)
    show ?thesis
    proof (cases "id_after ''/environment/'' proj")
      case None
      with exec_ids_marker[OF t, of "''/environment/''"] request_keeps(2)[OF r]
      show ?thesis unfolding head by (simp add: re_environment_def)
    next
      case env: (Some env)
      with exec_ids_marker[OF t, of "''/environment/''"] obtain es where
        es: "exec_ids re_environment (body projectRes) = Some (Inr (JStr env # es))"
        by (auto simp: re_environment_def)
      show ?thesis
      proof (cases "id_after ''/application/'' proj")
        case None
        with exec_ids_marker[OF t, of "''/application/''"] request_keeps(2)[OF r] env es
        show ?thesis unfolding head by (simp add: re_application_def)
      next
        case (Some app)
        with exec_ids_marker[OF t, of "''/application/''"] obtain as where
          "exec_ids re_application (body projectRes) = Some (Inr (JStr app # as))"
          by (auto simp: re_application_def)
        with request_keeps(2)[OF r] env es Some show ?thesis unfolding head by simp
      qed
    qed
  qed
  have d: "fetch_dashboard J U net w ss =
         (if t = [] \<or> sublist ''404'' t
          then request J U net (baseURL ss @ ''/'') no_options w1 s1
          else Some (Inr first, w1, s1))"
    if r: "request J U net (baseURL ss @ ''/dashboard'') no_options w ss = Some (Inr first, w1, s1)"
      and "body first = JStr t" for first w1 s1 t
    using that request_keeps(1)[OF r] by (simp add: fetch_dashboard_def wants_root_def)
  from a b c d show ?thesis by blast
qed


theorem discover_first_matches_witness:
  "discovered (discoverResources (json_table [])
      (url_table [''https://c.example/dashboard'', ''https://c.example/'',
                  ''https://c.example/project/p1''])
      (replay [plain 404 ''404 Not Found'',
               plain 200 ''<a href=/project/p1>One</a> <a href=/project/p2>Two</a>'',
               plain 200 (''<a href=/application/a7>x</a> <a href=/environment/e3>y</a> '' @
                          ''<a href=/environment/e1>z</a> <a href=/application/a2>t</a>'')])
      [] (fresh_session ''https://c.example''))
   = Some (True,
       [''https://c.example/dashboard'', ''https://c.example/'', ''https://c.example/project/p1''],
       JStr ''p1'', JStr ''e3'', JStr ''a7'')"
proof -
  let ?J = "json_table []"
  let ?U = "url_table [''https://c.example/dashboard'', ''https://c.example/'',
                  ''https://c.example/project/p1'']"
  let ?dash = "''<a href=/project/p1>One</a> <a href=/project/p2>Two</a>''"
  let ?proj = "''<a href=/application/a7>x</a> <a href=/environment/e3>y</a> '' @
               ''<a href=/environment/e1>z</a> <a href=/application/a2>t</a>''"
  let ?net = "replay [plain 404 ''404 Not Found'', plain 200 ?dash, plain 200 ?proj]"
  let ?s = "fresh_session ''https://c.example''"
  let ?w2 = "[build_request ?s ''https://c.example/dashboard'' no_options,
              build_request ?s ''https://c.example/'' no_options]"
  let ?w4 = "?w2 @ [build_request (?s\<lparr>projectId := JStr ''p1''\<rparr>)
                      ''https://c.example/project/p1'' no_options]"
  have f: "fetch_dashboard ?J ?U ?net [] ?s = Some (Inr (resolve ?J (plain 200 ?dash)), ?w2, ?s)"
    by code_simp
  have t: "to_String (body (resolve ?J (plain 200 ?dash))) = Inr ?dash"
    by code_simp
  have p: "id_after ''/project/'' ?dash = Some ''p1''"
    by code_simp
  have r: "request ?J ?U ?net (baseURL ?s @ ''/project/'' @ ''p1'') no_options ?w2
             (?s\<lparr>projectId := JStr ''p1''\<rparr>)
           = Some (Inr (resolve ?J (plain 200 ?proj)), ?w4, ?s\<lparr>projectId := JStr ''p1''\<rparr>)"
    by code_simp
  have u: "to_String (body (resolve ?J (plain 200 ?proj))) = Inr ?proj"
    by code_simp
  have d: "discoverResources ?J ?U ?net [] ?s =
         (case id_after ''/environment/'' ?proj of
            None \<Rightarrow> Some (False, ?w4, ?s\<lparr>projectId := JStr ''p1''\<rparr>)
          | Some env \<Rightarrow>
             (case id_after ''/application/'' ?proj of
                None \<Rightarrow> Some (False, ?w4, ?s\<lparr>projectId := JStr ''p1'', environmentId := JStr env\<rparr>)
              | Some app \<Rightarrow>
                  Some (True, ?w4, ?s\<lparr>projectId := JStr ''p1'', environmentId := JStr env,
                                       applicationId := JStr app\<rparr>)))"
    using discover_first_matches[OF f t] p r u by blast
  show ?thesis unfolding d by code_simp
qed


section \<open>Properties of logging in\<close>

text \<open>The token \<open>login\<close> reads off the login page.\<close>

definition page_token :: "string \<Rightarrow> jsval" where
  "page_token html = (case first_match re_csrf html of Some m \<Rightarrow> grp m 1 | None \<Rightarrow> JNull)"

definition failure_phrase :: string where
  "failure_phrase = ''These credentials do not match''"

definition invalid_credentials :: error where
  "invalid_credentials = Error ''Invalid email or password''"

text \<open>What an example shows of a run of \<open>login\<close>: its result and the method and URL of
  each request sent.\<close>

definition logged ::
  "((error + bool) \<times> wire_request list \<times> session) option \<Rightarrow>
   ((error + bool) \<times> (string \<times> string) list) option"
where
  "logged = map_option (\<lambda>(out, log, ss). (out, map (\<lambda>q. (req_method q, req_url q)) log))"

text \<open>
  Claim C4 fails as stated. The server answers the POST with status 500 and the payload
  \<open>{}\<close>, which \<open>request\<close> hands over as the parsed object: the body does not contain the
  failure phrase, yet \<open>login\<close> does not return success. It rejects with the TypeError of
  calling \<open>includes\<close> on an object.
\<close>

theorem login_counterexample:
  "logged (login (json_table [(''{}'', JObj [])]) (url_table [''https://c.example/login''])
      (replay [plain 200 ''<form>sign in</form>'', plain 500 ''{}''])
      ''a@b.c'' ''secret'' [] (fresh_session ''https://c.example''))
   = Some (Inl TypeError,
           [(''GET'', ''https://c.example/login''), (''POST'', ''https://c.example/login'')])"
  by code_simp

text \<open>
  Claim C4, amended. Let the login page be a text and the POST be answered. When the body
  of the answer is a text, \<open>login\<close> fails with the invalid-credentials error if and only if
  the body contains the failure phrase, and returns true for every other text and every
  status code: no mark of success is looked for. When the body was parsed as JSON, an array
  is searched for the phrase as one of its elements, and on any other value (an object, a
  number, a boolean, null) \<open>login\<close> rejects with a TypeError.
\<close>

theorem login_outcome:
  assumes "request J U net (baseURL ss @ ''/login'') no_options w ss
             = Some (Inr loginPageRes, w1, s1)"
    and "body loginPageRes = JStr html"
    and "request J U net (baseURL ss @ ''/login'')
             (login_options (s1\<lparr>csrfToken := page_token html\<rparr>) email password) w1
             (s1\<lparr>csrfToken := page_token html\<rparr>)
           = Some (Inr loginRes, w3, s3)"
  shows
   "(\<forall>t. body loginRes = JStr t \<longrightarrow>
       (login J U net email password w ss = Some (Inl invalid_credentials, w3, s3)
          \<longleftrightarrow> sublist failure_phrase t) \<and>
       (login J U net email password w ss = Some (Inr True, w3, s3)
          \<longleftrightarrow> \<not> sublist failure_phrase t)) \<and>
    (\<forall>xs. body loginRes = JArr xs \<longrightarrow>
       login J U net email password w ss =
         (if JStr failure_phrase \<in> set xs then Some (Inl invalid_credentials, w3, s3)
          else Some (Inr True, w3, s3))) \<and>
    ((\<forall>t. body loginRes \<noteq> JStr t) \<and> (\<forall>xs. body loginRes \<noteq> JArr xs) \<longrightarrow>
       login J U net email password w ss = Some (Inl TypeError, w3, s3))"
proof -
  have b: "baseURL s1 = baseURL ss" by (rule request_keeps(1)[OF assms(1)])
  have l: "login J U net email password w ss =
      (case js_includes (body loginRes) failure_phrase of
         Inl e \<Rightarrow> Some (Inl (login_catch s3 e), w3, s3)
       | Inr found \<Rightarrow>
           if found then Some (Inl (login_catch s3 invalid_credentials), w3, s3)
           else Some (Inr True, w3, s3))"
    using assms b
    by (simp add: login_def page_token_def failure_phrase_def invalid_credentials_def Let_def
          split: sum.splits)
  have c: "login_catch s3 invalid_credentials = invalid_credentials"
    "login_catch s3 TypeError = TypeError"
    by (simp_all add: login_catch_def invalid_credentials_def)
  have t: "(login J U net email password w ss = Some (Inl invalid_credentials, w3, s3)
          \<longleftrightarrow> sublist failure_phrase t) \<and>
       (login J U net email password w ss = Some (Inr True, w3, s3)
          \<longleftrightarrow> \<not> sublist failure_phrase t)" if "body loginRes = JStr t" for t
    unfolding l using that by (simp add: c)
  have a: "login J U net email password w ss =
         (if JStr failure_phrase \<in> set xs then Some (Inl invalid_credentials, w3, s3)
          else Some (Inr True, w3, s3))" if "body loginRes = JArr xs" for xs
    unfolding l using that by (simp add: c)
  have o: "login J U net email password w ss = Some (Inl TypeError, w3, s3)"
    if "\<forall>t. body loginRes \<noteq> JStr t" "\<forall>xs. body loginRes \<noteq> JArr xs"
    unfolding l using that by (cases "body loginRes") (simp_all add: c)
  from t a o show ?thesis by blast
qed

theorem login_outcome_witness:
  "logged (login (json_table []) (url_table [''https://c.example/login''])
      (replay [plain 200 ''<form>sign in</form>'', plain 500 ''<h1>Server Error</h1>''])
      ''a@b.c'' ''secret'' [] (fresh_session ''https://c.example''))
   = Some (Inr True,
           [(''GET'', ''https://c.example/login''), (''POST'', ''https://c.example/login'')]) \<and>
   logged (login (json_table []) (url_table [''https://c.example/login''])
      (replay [plain 200 ''<form>sign in</form>'',
               plain 200 ''<p>These credentials do not match our records.</p>''])
      ''a@b.c'' ''secret'' [] (fresh_session ''https://c.example''))
   = Some (Inl (Error ''Invalid email or password''),
           [(''GET'', ''https://c.example/login''), (''POST'', ''https://c.example/login'')])"
proof -
  let ?J = "json_table []"
  let ?U = "url_table [''https://c.example/login'']"
  let ?net = "replay [plain 200 ''<form>sign in</form>'', plain 500 ''<h1>Server Error</h1>'']"
  let ?s = "fresh_session ''https://c.example''"
  let ?q1 = "build_request ?s ''https://c.example/login'' no_options"
  let ?s2 = "?s\<lparr>csrfToken := page_token ''<form>sign in</form>''\<rparr>"
  let ?q2 = "build_request ?s2 ''https://c.example/login'' (login_options ?s2 ''a@b.c'' ''secret'')"
  have p: "request ?J ?U ?net (baseURL ?s @ ''/login'') no_options [] ?s
      = Some (Inr (resolve ?J (plain 200 ''<form>sign in</form>'')), [?q1], ?s)"
    by code_simp
  have h: "body (resolve ?J (plain 200 ''<form>sign in</form>'')) = JStr ''<form>sign in</form>''"
    by code_simp
  have r: "request ?J ?U ?net (baseURL ?s @ ''/login'') (login_options ?s2 ''a@b.c'' ''secret'')
             [?q1] ?s2
      = Some (Inr (resolve ?J (plain 500 ''<h1>Server Error</h1>'')), [?q1, ?q2], ?s2)"
    by code_simp
  have t: "body (resolve ?J (plain 500 ''<h1>Server Error</h1>'')) = JStr ''<h1>Server Error</h1>''"
    by code_simp
  have n: "\<not> sublist failure_phrase ''<h1>Server Error</h1>''"
    by code_simp
  have d: "login ?J ?U ?net ''a@b.c'' ''secret'' [] ?s = Some (Inr True, [?q1, ?q2], ?s2)"
    using login_outcome[OF p h r] t n by blast
  have first: "logged (login ?J ?U ?net ''a@b.c'' ''secret'' [] ?s)
     = Some (Inr True,
           [(''GET'', ''https://c.example/login''), (''POST'', ''https://c.example/login'')])"
    unfolding d by code_simp
  have second: "logged (login (json_table []) (url_table [''https://c.example/login''])
      (replay [plain 200 ''<form>sign in</form>'',
               plain 200 ''<p>These credentials do not match our records.</p>''])
      ''a@b.c'' ''secret'' [] (fresh_session ''https://c.example''))
   = Some (Inl (Error ''Invalid email or password''),
           [(''GET'', ''https://c.example/login''), (''POST'', ''https://c.example/login'')])"
    by code_simp
  from first second show ?thesis by (rule conjI)
qed


section \<open>Properties of the listing\<close>



text \<open>A list without its repetitions, each element at the place of its first occurrence.\<close>

primrec first_seen :: "'a list \<Rightarrow> 'a list" where
  "first_seen [] = []"
| "first_seen (x # xs) = x # filter (\<lambda>y. y \<noteq> x) (first_seen xs)"










lemma first_seen_set [simp]: "set (first_seen xs) = set xs"
  by (induction xs) auto

lemma first_seen_distinct [simp]: "distinct (first_seen xs)"
  by (induction xs) auto

lemma first_seen_Nil [simp]: "first_seen xs = [] \<longleftrightarrow> xs = []"
  by (cases xs) simp_all




lemma consuming_deployment [simp]: "consuming deploymentPattern" "consuming deploymentRegex"
  unfolding deploymentPattern_def deploymentRegex_def
  by (rule consuming_seqs, rule consuming_lit, simp)+












end
